theory Spec2Isabelle
  imports Complex_Main "HOL-Library.Multiset"
begin

section \<open>JavaScript numbers\<close>

text \<open>
  A JavaScript number is an IEEE 754 binary64 value: a finite double (a real of the form
  \<open>m * 2^e\<close> with \<open>\<bar>m\<bar> < 2^53\<close> and \<open>- 1074 \<le> e \<le> 971\<close>), negative zero, an infinity
  or NaN. \<open>Fin 0\<close> is positive zero. The result of a division or multiplication is the
  exact real result rounded to the nearest double, a tie going to the even mantissa, with
  overflow to an infinity and gradual underflow.
\<close>

datatype jsnum = Fin real | NegZero | PosInf | NegInf | NaN

definition pow2 :: "int \<Rightarrow> real" where
  "pow2 e = (if 0 \<le> e then 2 ^ nat e else 1 / 2 ^ nat (- e))"

text \<open>
  The binade of a positive real \<open>x\<close>: the \<open>e\<close> with \<open>2^e \<le> x < 2^(e+1)\<close>, found by halving
  or doubling; the fuel covers every \<open>x\<close> from \<open>2^(-1074)\<close> to below \<open>2^1025\<close>.
\<close>

fun scale_down :: "nat \<Rightarrow> real \<Rightarrow> int \<Rightarrow> int" where
  "scale_down 0 x e = e"
| "scale_down (Suc n) x e = (if x < 2 then e else scale_down n (x / 2) (e + 1))"

fun scale_up :: "nat \<Rightarrow> real \<Rightarrow> int \<Rightarrow> int" where
  "scale_up 0 x e = e"
| "scale_up (Suc n) x e = (if 1 \<le> x then e else scale_up n (x * 2) (e - 1))"

definition binade :: "real \<Rightarrow> int" where
  "binade x = (if 1 \<le> x then scale_down 1024 x 0 else scale_up 1074 x 0)"

definition round_half_even :: "real \<Rightarrow> int" where
  "round_half_even q =
     (let f = \<lfloor>q\<rfloor>; d = q - of_int f
      in if d < 1 / 2 then f else if 1 / 2 < d then f + 1 else if even f then f else f + 1)"

text \<open>
  The spacing of the doubles around \<open>x\<close> is \<open>2^(e-52)\<close> in the binade \<open>e\<close> of a normal \<open>x\<close>
  and \<open>2^(-1074)\<close> below \<open>2^(-1022)\<close>. \<open>round_double\<close> rounds a non-zero real.
\<close>

definition ulp_exponent :: "real \<Rightarrow> int" where
  "ulp_exponent x = (if \<bar>x\<bar> < pow2 (- 1022) then - 1074 else binade \<bar>x\<bar> - 52)"

definition round_double :: "real \<Rightarrow> jsnum" where
  "round_double x =
     (let u = pow2 (ulp_exponent x);
          y = of_int (round_half_even (x / u)) * u
      in if pow2 1024 \<le> \<bar>y\<bar> then (if x < 0 then NegInf else PosInf)
         else if y = 0 then (if x < 0 then NegZero else Fin 0)
         else Fin y)"

fun is_zero :: "jsnum \<Rightarrow> bool" where
  "is_zero (Fin x) = (x = 0)"
| "is_zero NegZero = True"
| "is_zero _ = False"

fun is_inf :: "jsnum \<Rightarrow> bool" where
  "is_inf PosInf = True"
| "is_inf NegInf = True"
| "is_inf _ = False"

text \<open>The sign bit of a number that is not NaN, and the real value of a finite one.\<close>

fun negative :: "jsnum \<Rightarrow> bool" where
  "negative (Fin x) = (x < 0)"
| "negative NegZero = True"
| "negative NegInf = True"
| "negative _ = False"

fun js_value :: "jsnum \<Rightarrow> real" where
  "js_value (Fin x) = x"
| "js_value _ = 0"

definition signed_zero :: "bool \<Rightarrow> jsnum" where
  "signed_zero s = (if s then NegZero else Fin 0)"

definition signed_inf :: "bool \<Rightarrow> jsnum" where
  "signed_inf s = (if s then NegInf else PosInf)"

definition js_div :: "jsnum \<Rightarrow> jsnum \<Rightarrow> jsnum" where
  "js_div a b =
     (if a = NaN \<or> b = NaN then NaN
      else let s = (negative a \<noteq> negative b)
        in if is_inf a then (if is_inf b then NaN else signed_inf s)
           else if is_inf b then signed_zero s
           else if is_zero b then (if is_zero a then NaN else signed_inf s)
           else if is_zero a then signed_zero s
           else round_double (js_value a / js_value b))"

definition js_mul :: "jsnum \<Rightarrow> jsnum \<Rightarrow> jsnum" where
  "js_mul a b =
     (if a = NaN \<or> b = NaN then NaN
      else let s = (negative a \<noteq> negative b)
        in if is_inf a \<or> is_inf b then (if is_zero a \<or> is_zero b then NaN else signed_inf s)
           else if is_zero a \<or> is_zero b then signed_zero s
           else round_double (js_value a * js_value b))"

text \<open>The comparison \<open>a < b\<close>: false with a NaN, and the two zeros are equal.\<close>

fun js_lt :: "jsnum \<Rightarrow> jsnum \<Rightarrow> bool" where
  "js_lt NaN _ = False"
| "js_lt _ NaN = False"
| "js_lt NegInf NegInf = False"
| "js_lt NegInf _ = True"
| "js_lt _ NegInf = False"
| "js_lt PosInf _ = False"
| "js_lt _ PosInf = True"
| "js_lt a b = (js_value a < js_value b)"

definition js_gt :: "jsnum \<Rightarrow> jsnum \<Rightarrow> bool" where
  "js_gt a b = js_lt b a"

text \<open>
  \<open>Math.min\<close> of two arguments (negative zero is the smaller zero) and \<open>Math.round\<close>: the
  nearest integer, a tie going up, and \<open>-0\<close> for a negative argument that rounds to zero.
\<close>

definition Math_min :: "jsnum \<Rightarrow> jsnum \<Rightarrow> jsnum" where
  "Math_min a b =
     (if a = NaN \<or> b = NaN then NaN
      else if js_lt a b then a else if js_lt b a then b
      else if negative a then a else b)"

fun Math_round :: "jsnum \<Rightarrow> jsnum" where
  "Math_round (Fin x) =
     (let n = \<lfloor>x + 1 / 2\<rfloor> in if n = 0 \<and> x < 0 then NegZero else Fin (of_int n))"
| "Math_round x = x"

text \<open>The real value of a finite number, for stating what a result is.\<close>

fun number_of :: "jsnum \<Rightarrow> real option" where
  "number_of (Fin x) = Some x"
| "number_of NegZero = Some 0"
| "number_of _ = None"

section \<open>Data model (utils/types.ts)\<close>

text \<open>
  \<open>ImageProps\<close>. The field \<open>id\<close> is called \<open>img_id\<close> here. The fields \<open>width\<close> and
  \<open>height\<close> are declared as strings and are read only through \<open>Number(...)\<close>; the
  model keeps the number that \<open>Number\<close> yields for the field, whatever it is.
\<close>

record ImageProps =
  img_id :: int
  height :: jsnum
  width :: jsnum
  public_id :: string
  format :: string
  blurDataUrl :: "string option"
  navigationId :: int

text \<open>
  \<open>SharedModalProps\<close>. The two callbacks \<open>changePhotoId\<close> and \<open>closeModal\<close> are not
  fields: a call of one of them is recorded as a \<open>callback\<close> value.
\<close>

record SharedModalProps =
  index :: int
  images :: "ImageProps list option"
  currentPhoto :: "ImageProps option"
  navigation :: bool
  direction :: "int option"

datatype callback = ChangePhotoId int | CloseModal

section \<open>Component state of SharedModal\<close>

record dimensions_t =
  dim_width :: jsnum
  dim_height :: jsnum

record modal_state =
  loaded :: bool
  dimensions :: dimensions_t

definition initial_state :: modal_state where
  "initial_state = \<lparr>loaded = False, dimensions = \<lparr>dim_width = Fin 1280, dim_height = Fin 853\<rparr>\<rparr>"

record window =
  innerWidth :: int
  innerHeight :: int

section \<open>calculateDimensions\<close>

definition calculateDimensions :: "window \<Rightarrow> ImageProps \<Rightarrow> modal_state \<Rightarrow> modal_state" where
  "calculateDimensions win currentImage st =
     (let maxWidth = Math_min (Fin 1280) (Fin (of_int (innerWidth win - 100)));
          maxHeight = Fin (of_int (innerHeight win - 100));
          imageWidth = width currentImage;
          imageHeight = height currentImage;
          ratio = js_div imageWidth imageHeight;
          (w, h) =
            (if js_gt ratio (Fin 1)
             then (let w = Math_min maxWidth imageWidth in (w, js_div w ratio))
             else (let h = Math_min maxHeight imageHeight in (js_mul h ratio, h)))
      in st\<lparr>dimensions := \<lparr>dim_width = Math_round w, dim_height = Math_round h\<rparr>\<rparr>)"

text \<open>
  \<open>computeDisplayDimensions\<close> as the specification words it, on the record's numeric
  intrinsic size and the viewport.
\<close>

definition computeDisplayDimensions_spec :: "jsnum \<Rightarrow> jsnum \<Rightarrow> int \<Rightarrow> int \<Rightarrow> dimensions_t" where
  "computeDisplayDimensions_spec intrinsicWidth intrinsicHeight viewportWidth viewportHeight =
     (let maxW = Math_min (Fin 1280) (Fin (of_int (viewportWidth - 100)));
          maxH = Fin (of_int (viewportHeight - 100));
          ratio = js_div intrinsicWidth intrinsicHeight
      in if js_gt ratio (Fin 1)
         then \<lparr>dim_width = Math_round (Math_min maxW intrinsicWidth),
               dim_height = Math_round (js_div (Math_min maxW intrinsicWidth) ratio)\<rparr>
         else \<lparr>dim_width = Math_round (js_mul (Math_min maxH intrinsicHeight) ratio),
               dim_height = Math_round (Math_min maxH intrinsicHeight)\<rparr>)"

section \<open>SharedModal: the filmstrip window and the swipe handlers\<close>

text \<open>
  Modelled from the spec: \<open>utils/range.ts\<close> is not among the sources. The specification
  describes the filmstrip window as the ids of the interval from \<open>currentId - radius\<close> to
  \<open>currentId + radius\<close>, both ends included, so \<open>range(start, end)\<close> is taken to list
  the integers from \<open>start\<close> to \<open>end\<close> inclusive.
\<close>

definition range_list :: "int \<Rightarrow> int \<Rightarrow> int list" where
  "range_list start end = [start..end]"

definition filteredImages :: "SharedModalProps \<Rightarrow> ImageProps list option" where
  "filteredImages p =
     (case images p of
        None \<Rightarrow> None
      | Some imgs \<Rightarrow>
          Some (filter (\<lambda>img. img_id img \<in> set (range_list (index p - 15) (index p + 15))) imgs))"

text \<open>
  The two swipe handlers. \<open>swipe_currentImage\<close>, \<open>nextImage\<close> and \<open>prevImage\<close> are the
  handlers' local constants; a handler returns the callbacks it invokes, in order.
\<close>

definition swipe_currentImage :: "SharedModalProps \<Rightarrow> ImageProps option" where
  "swipe_currentImage p =
     (case images p of None \<Rightarrow> None | Some imgs \<Rightarrow> find (\<lambda>img. img_id img = index p) imgs)"

definition nextImage :: "SharedModalProps \<Rightarrow> ImageProps option" where
  "nextImage p =
     (case swipe_currentImage p of
        None \<Rightarrow> None
      | Some currentImage \<Rightarrow>
          (case images p of
             None \<Rightarrow> None
           | Some imgs \<Rightarrow>
               find (\<lambda>img. navigationId img = navigationId currentImage + 1) imgs))"

definition prevImage :: "SharedModalProps \<Rightarrow> ImageProps option" where
  "prevImage p =
     (case swipe_currentImage p of
        None \<Rightarrow> None
      | Some currentImage \<Rightarrow>
          (case images p of
             None \<Rightarrow> None
           | Some imgs \<Rightarrow>
               find (\<lambda>img. navigationId img = navigationId currentImage - 1) imgs))"

definition onSwipedLeft :: "SharedModalProps \<Rightarrow> callback list" where
  "onSwipedLeft p =
     (case nextImage p of None \<Rightarrow> [] | Some n \<Rightarrow> [ChangePhotoId (img_id n)])"

definition onSwipedRight :: "SharedModalProps \<Rightarrow> callback list" where
  "onSwipedRight p =
     (case prevImage p of None \<Rightarrow> [] | Some n \<Rightarrow> [ChangePhotoId (img_id n)])"

text \<open>
  Handlers fired one after the other before the component is rendered again: each of
  them closes over the same props.
\<close>

definition fire_all :: "(SharedModalProps \<Rightarrow> callback list) list \<Rightarrow> SharedModalProps \<Rightarrow> callback list" where
  "fire_all hs p = concat (map (\<lambda>h. h p) hs)"

section \<open>SharedModal: what is rendered\<close>

datatype error = TypeError

datatype element =
    MainImage ImageProps dimensions_t
  | PrevButton callback
  | NextButton callback
  | OpenOriginalLink ImageProps
  | CloseButton callback
  | BottomNavBar "(int \<times> callback) list"

definition currentImage :: "SharedModalProps \<Rightarrow> ImageProps option" where
  "currentImage p =
     (case images p of
        Some imgs \<Rightarrow> find (\<lambda>img. img_id img = index p) imgs
      | None \<Rightarrow> currentPhoto p)"

text \<open>
  The buttons block (under \<open>loaded &&\<close>) and the bottom nav bar (under \<open>navigation &&\<close>).
  Reading a property of \<open>undefined\<close> throws a \<open>TypeError\<close>.
\<close>

definition render_buttons :: "SharedModalProps \<Rightarrow> modal_state \<Rightarrow> ImageProps \<Rightarrow> error + element list" where
  "render_buttons p st cur =
     (if loaded st then
        (if navigation p then
           (case images p of
              None \<Rightarrow> Inl TypeError
            | Some imgs \<Rightarrow>
                Inr ((if index p > 0 then [PrevButton (ChangePhotoId (index p - 1))] else []) @
                     (if index p + 1 < int (length imgs)
                      then [NextButton (ChangePhotoId (index p + 1))] else []) @
                     [OpenOriginalLink cur, CloseButton CloseModal]))
         else Inr [CloseButton CloseModal])
      else Inr [])"

definition render_navbar :: "SharedModalProps \<Rightarrow> error + element list" where
  "render_navbar p =
     (if navigation p then
        (case filteredImages p of
           None \<Rightarrow> Inl TypeError
         | Some fi \<Rightarrow> Inr [BottomNavBar (map (\<lambda>img. (img_id img, ChangePhotoId (img_id img))) fi)])
      else Inr [])"

definition render :: "SharedModalProps \<Rightarrow> modal_state \<Rightarrow> error + element list" where
  "render p st =
     (case currentImage p of
        None \<Rightarrow> Inl TypeError
      | Some cur \<Rightarrow>
          (case render_buttons p st cur of
             Inl e \<Rightarrow> Inl e
           | Inr buttons \<Rightarrow>
               (case render_navbar p of
                  Inl e \<Rightarrow> Inl e
                | Inr bar \<Rightarrow> Inr (MainImage cur (dimensions st) # buttons @ bar))))"

fun is_overlay_control :: "element \<Rightarrow> bool" where
  "is_overlay_control (PrevButton _) = True"
| "is_overlay_control (NextButton _) = True"
| "is_overlay_control (OpenOriginalLink _) = True"
| "is_overlay_control (CloseButton _) = True"
| "is_overlay_control _ = False"

fun is_filmstrip :: "element \<Rightarrow> bool" where
  "is_filmstrip (BottomNavBar _) = True"
| "is_filmstrip _ = False"

section \<open>SharedModal: one mounted instance over time\<close>

text \<open>
  The hook state of a mounted component lives as long as the instance: a render with new
  props keeps it. The events are the image's \<open>onLoad\<close>, a resize of the window, and a
  render with new props (as after \<open>changePhotoId\<close>). The effect runs
  \<open>calculateDimensions\<close> when \<open>currentImage\<close> is defined, and its resize listener does
  the same; a render that throws ends the instance.
\<close>

datatype event = ImageLoad | Resize window | NewProps SharedModalProps

record component =
  c_props :: SharedModalProps
  c_window :: window
  c_state :: modal_state

definition run_effect :: "component \<Rightarrow> component" where
  "run_effect c =
     (case currentImage (c_props c) of
        None \<Rightarrow> c
      | Some cur \<Rightarrow> c\<lparr>c_state := calculateDimensions (c_window c) cur (c_state c)\<rparr>)"

definition rendered :: "component \<Rightarrow> error + component" where
  "rendered c = (case render (c_props c) (c_state c) of Inl e \<Rightarrow> Inl e | Inr _ \<Rightarrow> Inr c)"

definition mount :: "SharedModalProps \<Rightarrow> window \<Rightarrow> error + component" where
  "mount p win =
     (case rendered \<lparr>c_props = p, c_window = win, c_state = initial_state\<rparr> of
        Inl e \<Rightarrow> Inl e
      | Inr c \<Rightarrow> rendered (run_effect c))"

fun step :: "event \<Rightarrow> component \<Rightarrow> error + component" where
  "step ImageLoad c = rendered (c\<lparr>c_state := (c_state c)\<lparr>loaded := True\<rparr>\<rparr>)"
| "step (Resize win) c = rendered (run_effect (c\<lparr>c_window := win\<rparr>))"
| "step (NewProps p) c =
     (case rendered (c\<lparr>c_props := p\<rparr>) of
        Inl e \<Rightarrow> Inl e
      | Inr c' \<Rightarrow> rendered (run_effect c'))"

fun run :: "event list \<Rightarrow> component \<Rightarrow> error + component" where
  "run [] c = Inr c"
| "run (e # es) c = (case step e c of Inl err \<Rightarrow> Inl err | Inr c' \<Rightarrow> run es c')"

section \<open>The page-load builder (pages/index.tsx)\<close>

text \<open>
  \<open>Math.random()\<close> returns a number \<open>r\<close> with \<open>0 \<le> r < 1\<close>. The generator is a
  parameter of the model: the function giving the result of each call, by call number.
\<close>

typedef unit_real = "{r :: real. 0 \<le> r \<and> r < 1}"
  by (rule exI [of _ 0]) simp

text \<open>
  The loop of \<open>shuffleArray\<close>, from \<open>i\<close> down to 1; \<open>calls\<close> counts the calls of
  \<open>Math.random\<close> made so far. The destructuring swap reads both elements first.
\<close>

fun shuffle_loop :: "(nat \<Rightarrow> unit_real) \<Rightarrow> nat \<Rightarrow> nat \<Rightarrow> 'a list \<Rightarrow> 'a list" where
  "shuffle_loop random calls 0 newArray = newArray"
| "shuffle_loop random calls (Suc i') newArray =
     (let i = Suc i';
          j = nat \<lfloor>Rep_unit_real (random calls) * real (i + 1)\<rfloor>
      in shuffle_loop random (Suc calls) i' (newArray[i := newArray ! j, j := newArray ! i]))"

text \<open>On the empty array the loop starts at \<open>-1\<close> and does not run; \<open>0 - 1 = 0\<close> on \<open>nat\<close>.\<close>

definition shuffleArray :: "(nat \<Rightarrow> unit_real) \<Rightarrow> 'a list \<Rightarrow> 'a list" where
  "shuffleArray random array = shuffle_loop random 0 (length array - 1) array"

text \<open>A resource of the Cloudinary search result, as far as it is read.\<close>

record resource =
  res_height :: jsnum
  res_width :: jsnum
  res_public_id :: string
  res_format :: string

definition reducedResults :: "resource list \<Rightarrow> ImageProps list" where
  "reducedResults resources =
     map2 (\<lambda>result i.
        \<lparr>img_id = int i, height = res_height result, width = res_width result,
         public_id = res_public_id result, format = res_format result,
         blurDataUrl = None, navigationId = int i\<rparr>)
       resources [0..<length resources]"

text \<open>
  \<open>reducedResults[newIndex].id\<close> throws a \<open>TypeError\<close> when \<open>newIndex\<close> is not an index
  of \<open>reducedResults\<close>.
\<close>

definition randomizedResults :: "(nat \<Rightarrow> unit_real) \<Rightarrow> ImageProps list \<Rightarrow> error + ImageProps list" where
  "randomizedResults random reduced =
     (let originalOrder = map snd (zip reduced [0..<length reduced]);
          shuffledOrder = shuffleArray random originalOrder
      in if list_all (\<lambda>newIndex. newIndex < length reduced) shuffledOrder
         then Inr (map (\<lambda>newIndex.
                (reduced ! newIndex)\<lparr>img_id := img_id (reduced ! newIndex),
                                      navigationId := int newIndex\<rparr>) shuffledOrder)
         else Inl TypeError)"

text \<open>
  \<open>getStaticProps\<close>, the \<open>images\<close> prop it returns. The search result is \<open>None\<close> when the
  Cloudinary call is rejected; \<open>getBase64ImageUrl\<close> (utils/generateBlurPlaceholder, not
  among the sources) is a parameter, \<open>None\<close> when its promise is rejected. Every
  failure is caught and gives the empty collection.
\<close>

definition getStaticProps ::
    "(nat \<Rightarrow> unit_real) \<Rightarrow> (ImageProps \<Rightarrow> string option) \<Rightarrow> resource list option \<Rightarrow> ImageProps list" where
  "getStaticProps random getBase64ImageUrl results =
     (case results of
        None \<Rightarrow> []
      | Some resources \<Rightarrow>
          (case randomizedResults random (reducedResults resources) of
             Inl _ \<Rightarrow> []
           | Inr randomized \<Rightarrow>
               (let imagesWithBlurDataUrls = map getBase64ImageUrl randomized
                in if list_all (\<lambda>b. b \<noteq> None) imagesWithBlurDataUrls
                   then map2 (\<lambda>image b. image\<lparr>blurDataUrl := b\<rparr>) randomized imagesWithBlurDataUrls
                   else [])))"

section \<open>Example inputs\<close>

definition photo :: "int \<Rightarrow> int \<Rightarrow> ImageProps" where
  "photo i n =
     \<lparr>img_id = i, height = Fin 1000, width = Fin 2000, public_id = ''photo'', format = ''jpg'',
      blurDataUrl = None, navigationId = n\<rparr>"

definition gallery :: "nat \<Rightarrow> ImageProps list" where
  "gallery n = map (\<lambda>i. photo (int i) (int i)) [0..<n]"

definition viewer :: "int \<Rightarrow> ImageProps list \<Rightarrow> SharedModalProps" where
  "viewer i imgs =
     \<lparr>index = i, images = Some imgs, currentPhoto = None, navigation = True, direction = None\<rparr>"

definition desktop :: window where
  "desktop = \<lparr>innerWidth = 1400, innerHeight = 900\<rparr>"

definition search_hit :: "string \<Rightarrow> resource" where
  "search_hit name =
     \<lparr>res_height = Fin 1000, res_width = Fin 2000, res_public_id = name, res_format = ''jpg''\<rparr>"

definition mounted_viewer :: component where
  "mounted_viewer =
     \<lparr>c_props = viewer 0 (gallery 3), c_window = desktop,
      c_state = \<lparr>loaded = False, dimensions = \<lparr>dim_width = Fin 1280, dim_height = Fin 640\<rparr>\<rparr>\<rparr>"

definition navigated_viewer :: component where
  "navigated_viewer =
     \<lparr>c_props = viewer 1 (gallery 3), c_window = desktop,
      c_state = \<lparr>loaded = True, dimensions = \<lparr>dim_width = Fin 1280, dim_height = Fin 640\<rparr>\<rparr>\<rparr>"

definition tie_photo :: ImageProps where
  "tie_photo =
     \<lparr>img_id = 0, height = Fin 1564, width = Fin 2048, public_id = ''photo'', format = ''jpg'',
      blurDataUrl = None, navigationId = 0\<rparr>"

definition built_gallery :: "ImageProps list" where
  "built_gallery =
     getStaticProps (\<lambda>_. Abs_unit_real 0) (\<lambda>_. Some ''blur'')
       (Some [search_hit ''a'', search_hit ''b'', search_hit ''c''])"

section \<open>Rounding to a double\<close>

lemma pow2_powr: "pow2 e = 2 powr (of_int e)"
proof (cases "0 \<le> e")
  case True
  then show ?thesis by (simp add: pow2_def powr_realpow [symmetric])
next
  case False
  then have r: "real_of_int e = - real (nat (- e))" by simp
  have "2 powr (real_of_int e) = 1 / 2 powr (real (nat (- e)))"
    by (subst r) (rule powr_minus_divide)
  also have "\<dots> = 1 / 2 ^ nat (- e)" by (simp only: powr_realpow [of 2, simplified])
  finally show ?thesis using False by (simp add: pow2_def)
qed

lemma pow2_pos: "0 < pow2 e"
  by (simp add: pow2_powr)

lemma pow2_add: "pow2 (a + b) = pow2 a * pow2 b"
  by (simp add: pow2_powr powr_add)

lemma pow2_mono: "a \<le> b \<Longrightarrow> pow2 a \<le> pow2 b"
  by (simp add: pow2_powr)

lemma pow2_0: "pow2 0 = 1" and pow2_1: "pow2 1 = 2" and pow2_m1: "pow2 (- 1) = 1 / 2"
  by (simp_all add: pow2_def)

lemma scale_down_bounds:
  "1 \<le> x \<Longrightarrow> x < 2 ^ Suc n \<Longrightarrow>
   pow2 (scale_down n x e - e) \<le> x \<and> x < pow2 (scale_down n x e - e + 1)"
proof (induction n arbitrary: x e)
  case 0
  then show ?case by (simp add: pow2_0 pow2_1)
next
  case (Suc n)
  show ?case
  proof (cases "x < 2")
    case True
    with Suc.prems show ?thesis by (simp add: pow2_0 pow2_1)
  next
    case False
    with Suc.prems have "1 \<le> x / 2" "x / 2 < 2 ^ Suc n" by simp_all
    from Suc.IH [OF this, of "e + 1"]
    have "pow2 (scale_down n (x / 2) (e + 1) - e - 1) \<le> x / 2"
      and "x / 2 < pow2 (scale_down n (x / 2) (e + 1) - e - 1 + 1)" by (simp_all add: algebra_simps)
    moreover have "pow2 (scale_down n (x / 2) (e + 1) - e) = pow2 (scale_down n (x / 2) (e + 1) - e - 1) * 2"
      using pow2_add [of "scale_down n (x / 2) (e + 1) - e - 1" 1] by (simp add: pow2_1)
    moreover have "pow2 (scale_down n (x / 2) (e + 1) - e + 1) = pow2 (scale_down n (x / 2) (e + 1) - e - 1 + 1) * 2"
      using pow2_add [of "scale_down n (x / 2) (e + 1) - e - 1 + 1" 1] by (simp add: pow2_1)
    ultimately show ?thesis using False by simp
  qed
qed

lemma scale_up_bounds:
  "0 < x \<Longrightarrow> x < 2 \<Longrightarrow> 1 \<le> x * 2 ^ n \<Longrightarrow>
   pow2 (scale_up n x e - e) \<le> x \<and> x < pow2 (scale_up n x e - e + 1)"
proof (induction n arbitrary: x e)
  case 0
  then show ?case by (simp add: pow2_0 pow2_1)
next
  case (Suc n)
  show ?case
  proof (cases "1 \<le> x")
    case True
    with Suc.prems show ?thesis by (simp add: pow2_0 pow2_1)
  next
    case False
    with Suc.prems have "0 < x * 2" "x * 2 < 2" "1 \<le> x * 2 * 2 ^ n" by (simp_all add: algebra_simps)
    from Suc.IH [OF this, of "e - 1"]
    have "pow2 (scale_up n (x * 2) (e - 1) - e + 1) \<le> x * 2"
      and "x * 2 < pow2 (scale_up n (x * 2) (e - 1) - e + 1 + 1)" by (simp_all add: algebra_simps)
    moreover have "pow2 (scale_up n (x * 2) (e - 1) - e + 1) = pow2 (scale_up n (x * 2) (e - 1) - e) * 2"
      using pow2_add [of "scale_up n (x * 2) (e - 1) - e" 1] by (simp add: pow2_1)
    moreover have "pow2 (scale_up n (x * 2) (e - 1) - e + 1 + 1) = pow2 (scale_up n (x * 2) (e - 1) - e + 1) * 2"
      using pow2_add [of "scale_up n (x * 2) (e - 1) - e + 1" 1] by (simp add: pow2_1)
    ultimately show ?thesis using False by simp
  qed
qed

lemma binade_bounds:
  assumes "pow2 (- 1074) \<le> x" and "x < pow2 1025"
  shows "pow2 (binade x) \<le> x \<and> x < pow2 (binade x + 1)"
proof (cases "1 \<le> x")
  case True
  have "x < 2 ^ Suc 1024" using assms(2) by (simp add: pow2_def)
  from scale_down_bounds [OF True this, of 0] True show ?thesis by (simp add: binade_def)
next
  case False
  have "0 < x" using assms(1) pow2_pos [of "- 1074"] by linarith
  moreover have "x < 2" using False by simp
  moreover have "1 \<le> x * 2 ^ 1074" using assms(1) by (simp add: pow2_def field_simps)
  ultimately show ?thesis using scale_up_bounds [of x 1074 0] False by (simp add: binade_def)
qed

lemma binade_unique:
  assumes "pow2 k \<le> x" and "x < pow2 (k + 1)" and "- 1074 \<le> k" and "k \<le> 1024"
  shows "binade x = k"
proof -
  have lo: "pow2 (- 1074) \<le> x" using assms(1,3) pow2_mono [of "- 1074" k] by linarith
  have hi: "x < pow2 1025" using assms(2,4) pow2_mono [of "k + 1" 1025] by linarith
  from binade_bounds [OF lo hi] have b: "pow2 (binade x) \<le> x" "x < pow2 (binade x + 1)" by simp_all
  have "binade x < k + 1"
  proof (rule ccontr)
    assume "\<not> binade x < k + 1"
    then have "pow2 (k + 1) \<le> pow2 (binade x)" by (intro pow2_mono) simp
    with b(1) assms(2) show False by linarith
  qed
  moreover have "k < binade x + 1"
  proof (rule ccontr)
    assume "\<not> k < binade x + 1"
    then have "pow2 (binade x + 1) \<le> pow2 k" by (intro pow2_mono) simp
    with b(2) assms(1) show False by linarith
  qed
  ultimately show ?thesis by simp
qed

lemma round_half_even_near: "\<bar>of_int (round_half_even q) - q\<bar> \<le> 1 / 2"
  unfolding round_half_even_def Let_def by (auto split: if_splits)


lemma round_double_normal:
  assumes lo: "pow2 (- 1022) \<le> \<bar>x\<bar>" and hi: "\<bar>x\<bar> < pow2 1023"
  shows "\<exists>y. round_double x = Fin y \<and> \<bar>y - x\<bar> \<le> \<bar>x\<bar> / 2 ^ 53
            \<and> y = of_int (round_half_even (x / pow2 (binade \<bar>x\<bar> - 52))) * pow2 (binade \<bar>x\<bar> - 52)"
proof -
  define e where "e = binade \<bar>x\<bar>"
  define u where "u = pow2 (e - 52)"
  define y where "y = of_int (round_half_even (x / u)) * u"
  have xpos: "0 < \<bar>x\<bar>" using lo pow2_pos [of "- 1022"] by linarith
  have "pow2 (- 1074) \<le> \<bar>x\<bar>" using lo pow2_mono [of "- 1074" "- 1022"] by linarith
  moreover have "\<bar>x\<bar> < pow2 1025" using hi pow2_mono [of 1023 1025] by linarith
  ultimately have b: "pow2 e \<le> \<bar>x\<bar>" "\<bar>x\<bar> < pow2 (e + 1)"
    unfolding e_def using binade_bounds by blast+
  have ue: "ulp_exponent x = e - 52" using lo by (simp add: ulp_exponent_def e_def)
  have upos: "0 < u" unfolding u_def by (rule pow2_pos)
  have "pow2 e = pow2 (e - 52) * pow2 52" using pow2_add [of "e - 52" 52] by simp
  then have u52: "u * 2 ^ 52 = pow2 e" by (simp add: u_def pow2_def)
  have "\<bar>of_int (round_half_even (x / u)) - x / u\<bar> \<le> 1 / 2" by (rule round_half_even_near)
  then have "\<bar>of_int (round_half_even (x / u)) - x / u\<bar> * u \<le> 1 / 2 * u"
    using upos by (intro mult_right_mono) simp_all
  moreover have "\<bar>of_int (round_half_even (x / u)) - x / u\<bar> * u = \<bar>y - x\<bar>"
  proof -
    have "(of_int (round_half_even (x / u)) - x / u) * u = y - x"
      using upos by (simp add: y_def field_simps)
    then have "\<bar>y - x\<bar> = \<bar>of_int (round_half_even (x / u)) - x / u\<bar> * \<bar>u\<bar>"
      by (simp only: abs_mult [symmetric])
    then show ?thesis using upos by simp
  qed
  ultimately have yx: "\<bar>y - x\<bar> \<le> u / 2" by simp
  have "u / 2 = pow2 e / 2 ^ 53" using u52 by (simp add: field_simps)
  also have "\<dots> \<le> \<bar>x\<bar> / 2 ^ 53" using b(1) by (simp add: divide_right_mono)
  finally have err: "\<bar>y - x\<bar> \<le> \<bar>x\<bar> / 2 ^ 53" using yx by linarith
  have small: "\<bar>x\<bar> / 2 ^ 53 < \<bar>x\<bar>" using xpos by (simp add: field_simps)
  have "\<bar>y\<bar> \<le> \<bar>x\<bar> + \<bar>x\<bar> / 2 ^ 53" using err by linarith
  also have "\<dots> < 2 * \<bar>x\<bar>" using small by linarith
  also have "\<dots> < 2 * pow2 1023" using hi by simp
  also have "2 * pow2 1023 = pow2 1024" using pow2_add [of 1 1023] by (simp add: pow2_1)
  finally have noov: "\<not> pow2 1024 \<le> \<bar>y\<bar>" by simp
  have "\<bar>y\<bar> \<ge> \<bar>x\<bar> - \<bar>x\<bar> / 2 ^ 53" using err by linarith
  then have nz: "y \<noteq> 0" using small by auto
  have "round_double x = Fin y"
    using noov nz by (simp add: round_double_def ue Let_def y_def u_def)
  then show ?thesis using err by (simp add: y_def u_def e_def)
qed

lemma round_double_int:
  assumes "k \<noteq> 0" and "\<bar>k\<bar> < 2 ^ 53"
  shows "round_double (of_int k) = Fin (of_int k)"
proof -
  let ?x = "real_of_int k"
  have "1 \<le> \<bar>k\<bar>" using assms(1) by simp
  then have "real_of_int 1 \<le> real_of_int \<bar>k\<bar>" by (simp only: of_int_le_iff)
  then have a1: "1 \<le> \<bar>?x\<bar>" by simp
  have "real_of_int \<bar>k\<bar> < real_of_int (2 ^ 53)" using assms(2) by (simp only: of_int_less_iff)
  then have a2: "\<bar>?x\<bar> < 2 ^ 53" by simp
  have lo: "pow2 (- 1022) \<le> \<bar>?x\<bar>" using a1 pow2_mono [of "- 1022" 0] by (simp add: pow2_0)
  have hi: "\<bar>?x\<bar> < pow2 1023" using a2 pow2_mono [of 53 1023] by (simp add: pow2_def)
  define e where "e = binade \<bar>?x\<bar>"
  have "pow2 (- 1074) \<le> \<bar>?x\<bar>" using lo pow2_mono [of "- 1074" "- 1022"] by linarith
  moreover have "\<bar>?x\<bar> < pow2 1025" using hi pow2_mono [of 1023 1025] by linarith
  ultimately have b: "pow2 e \<le> \<bar>?x\<bar>" "\<bar>?x\<bar> < pow2 (e + 1)"
    unfolding e_def using binade_bounds by blast+
  have "e < 53"
  proof (rule ccontr)
    assume "\<not> e < 53"
    then have "pow2 53 \<le> pow2 e" by (intro pow2_mono) simp
    with b(1) a2 show False by (simp add: pow2_def)
  qed
  then have e52: "e - 52 \<le> 0" by simp
  define m where "m = nat (52 - e)"
  have u: "pow2 (e - 52) * 2 ^ m = 1"
    using pow2_add [of "e - 52" "52 - e"] e52 by (simp add: pow2_def m_def)
  have upos: "0 < pow2 (e - 52)" by (rule pow2_pos)
  have q: "?x / pow2 (e - 52) = of_int (k * 2 ^ m)"
    using u upos by (simp add: field_simps)
  have r: "round_half_even (of_int (k * 2 ^ m)) = k * 2 ^ m"
    by (simp add: round_half_even_def Let_def del: of_int_mult)
  from round_double_normal [OF lo hi] have
    "round_double ?x = Fin (of_int (round_half_even (?x / pow2 (e - 52))) * pow2 (e - 52))"
    by (auto simp: e_def)
  also have "of_int (round_half_even (?x / pow2 (e - 52))) * pow2 (e - 52) = ?x"
    unfolding q r using u by (simp add: algebra_simps)
  finally show ?thesis .
qed

lemma round_double_eval:
  assumes "pow2 k \<le> \<bar>x\<bar>" and "\<bar>x\<bar> < pow2 (k + 1)" and "- 1022 \<le> k" and "k < 1023"
  shows "round_double x = Fin (of_int (round_half_even (x / pow2 (k - 52))) * pow2 (k - 52))"
proof -
  have kb: "binade \<bar>x\<bar> = k" using assms by (intro binade_unique) simp_all
  have lo: "pow2 (- 1022) \<le> \<bar>x\<bar>" using assms(1,3) pow2_mono [of "- 1022" k] by linarith
  have hi: "\<bar>x\<bar> < pow2 1023" using assms(2,4) pow2_mono [of "k + 1" 1023] by linarith
  from round_double_normal [OF lo hi] show ?thesis by (auto simp: kb)
qed

lemma Math_min_Fin: "Math_min (Fin x) (Fin y) = Fin (min x y)"
  by (auto simp: Math_min_def min_def)

lemma number_of_round: "number_of (Math_round (Fin v)) = Some (of_int \<lfloor>v + 1 / 2\<rfloor>)"
  by (simp add: Let_def)

lemma Math_round_int: "Math_round (Fin (of_int a)) = Fin (of_int a)"
proof -
  have "\<lfloor>real_of_int a + 1 / 2\<rfloor> = a" by linarith
  moreover have "\<not> (a = 0 \<and> real_of_int a < 0)" by auto
  ultimately show ?thesis by (simp add: Let_def)
qed

lemma js_div_finite:
  "x \<noteq> 0 \<Longrightarrow> y \<noteq> 0 \<Longrightarrow> js_div (Fin x) (Fin y) = round_double (x / y)"
  by (simp add: js_div_def)

lemma js_mul_finite:
  "x \<noteq> 0 \<Longrightarrow> y \<noteq> 0 \<Longrightarrow> js_mul (Fin x) (Fin y) = round_double (x * y)"
  by (simp add: js_mul_def)

lemma round_near:
  fixes p d :: int and v :: real
  assumes d: "0 < d" and v: "\<bar>v - real_of_int p / real_of_int d\<bar> < 1 / (2 * real_of_int d)"
  shows "\<bar>real_of_int \<lfloor>v + 1 / 2\<rfloor> - real_of_int p / real_of_int d\<bar> \<le> 1 / 2"
proof -
  define m where "m = \<lfloor>v + 1 / 2\<rfloor>"
  define D where "D = real_of_int d"
  define P where "P = real_of_int p"
  have dpos: "0 < D" using d by (simp add: D_def)
  have m1: "real_of_int m \<le> v + 1 / 2" and m2: "v + 1 / 2 < real_of_int m + 1"
    unfolding m_def by linarith+
  from v have v1: "v < P / D + 1 / (2 * D)" and v2: "P / D - 1 / (2 * D) < v"
    unfolding D_def P_def by linarith+
  have e1: "(P / D + 1 / (2 * D) + 1 / 2) * (2 * D) = 2 * P + 1 + D"
    using dpos by (simp add: field_simps)
  have e2: "(P / D - 1 / (2 * D) + 1 / 2) * (2 * D) = 2 * P - 1 + D"
    using dpos by (simp add: field_simps)
  have "real_of_int m < P / D + 1 / (2 * D) + 1 / 2" using m1 v1 by linarith
  then have "real_of_int m * (2 * D) < (P / D + 1 / (2 * D) + 1 / 2) * (2 * D)"
    using dpos by (intro mult_strict_right_mono) simp_all
  then have "real_of_int (2 * d * m) < real_of_int (2 * p + 1 + d)"
    unfolding e1 by (simp add: D_def P_def algebra_simps)
  then have "2 * d * m < 2 * p + 1 + d" by (simp only: of_int_less_iff)
  then have i1: "2 * d * m \<le> 2 * p + d" by simp
  have "P / D - 1 / (2 * D) + 1 / 2 < real_of_int m + 1" using m2 v2 by linarith
  then have "(P / D - 1 / (2 * D) + 1 / 2) * (2 * D) < (real_of_int m + 1) * (2 * D)"
    using dpos by (intro mult_strict_right_mono) simp_all
  then have "real_of_int (2 * p - 1 + d) < real_of_int (2 * d * m + 2 * d)"
    unfolding e2 by (simp add: D_def P_def algebra_simps)
  then have "2 * p - 1 + d < 2 * d * m + 2 * d" by (simp only: of_int_less_iff)
  then have i2: "2 * p \<le> 2 * d * m + d" by simp
  have "real_of_int (2 * d * m) \<le> real_of_int (2 * p + d)" using i1 by (simp only: of_int_le_iff)
  then have "2 * D * real_of_int m \<le> 2 * P + D" by (simp add: D_def P_def)
  then have "(2 * D * real_of_int m) / (2 * D) \<le> (2 * P + D) / (2 * D)"
    using dpos by (intro divide_right_mono) simp_all
  then have r1: "real_of_int m - P / D \<le> 1 / 2" using dpos by (simp add: field_simps)
  have "real_of_int (2 * p) \<le> real_of_int (2 * d * m + d)" using i2 by (simp only: of_int_le_iff)
  then have "2 * P \<le> 2 * D * real_of_int m + D" by (simp add: D_def P_def)
  then have "(2 * P) / (2 * D) \<le> (2 * D * real_of_int m + D) / (2 * D)"
    using dpos by (intro divide_right_mono) simp_all
  then have r2: "P / D - real_of_int m \<le> 1 / 2" using dpos by (simp add: field_simps)
  from r1 r2 show ?thesis unfolding m_def D_def P_def by linarith
qed


section \<open>The error of one division or multiplication\<close>

lemma pow2_below: "pow2 (- 1022) \<le> 1 / 2 ^ 25"
proof -
  have "pow2 (- 1022) \<le> pow2 (- 25)" by (intro pow2_mono) simp
  then show ?thesis by (simp add: pow2_def)
qed

lemma pow2_above: "(2::real) ^ 25 < pow2 1023"
proof -
  have "pow2 26 \<le> pow2 1023" by (intro pow2_mono) simp
  moreover have "(2::real) ^ 25 < pow2 26" by (simp add: pow2_def)
  ultimately show ?thesis by linarith
qed

lemma round_double_range:
  assumes "1 / 2 ^ 25 \<le> \<bar>x\<bar>" and "\<bar>x\<bar> \<le> 2 ^ 25"
  shows "\<exists>y. round_double x = Fin y \<and> \<bar>y - x\<bar> \<le> \<bar>x\<bar> / 2 ^ 53"
proof -
  have "pow2 (- 1022) \<le> \<bar>x\<bar>" using assms(1) pow2_below by linarith
  moreover have "\<bar>x\<bar> < pow2 1023" using assms(2) pow2_above by linarith
  ultimately show ?thesis using round_double_normal [of x] by blast
qed

lemma ratio_double:
  fixes w h :: int
  assumes w: "0 < w" "w \<le> 2 ^ 24" and h: "0 < h" "h \<le> 2 ^ 24"
  shows "\<exists>\<rho>. js_div (Fin (of_int w)) (Fin (of_int h)) = Fin \<rho>
           \<and> \<bar>\<rho> - of_int w / of_int h\<bar> \<le> (of_int w / of_int h) / 2 ^ 53
           \<and> 0 < \<rho> \<and> (h < w \<longrightarrow> 1 < \<rho>) \<and> (\<not> h < w \<longrightarrow> \<rho> \<le> 1)"
proof -
  define X where "X = real_of_int w / real_of_int h"
  have wr: "1 \<le> real_of_int w" "real_of_int w \<le> 2 ^ 24"
    using w by (simp, metis of_int_le_numeral_power_cancel_iff)
  have hr: "1 \<le> real_of_int h" "real_of_int h \<le> 2 ^ 24"
    using h by (simp, metis of_int_le_numeral_power_cancel_iff)
  have Xpos: "0 < X" using wr hr by (simp add: X_def)
  have Xlo: "1 / 2 ^ 24 \<le> X"
  proof -
    have "1 / 2 ^ 24 \<le> 1 / real_of_int h" using hr by (simp add: field_simps)
    also have "\<dots> \<le> X" unfolding X_def using wr hr by (simp add: divide_right_mono)
    finally show ?thesis .
  qed
  have Xhi: "X \<le> 2 ^ 24"
  proof -
    have "X \<le> real_of_int w / 1" unfolding X_def using wr hr by (intro divide_left_mono) simp_all
    then show ?thesis using wr by simp
  qed
  have "1 / 2 ^ 25 \<le> \<bar>X\<bar>" using Xlo Xpos by simp
  moreover have "\<bar>X\<bar> \<le> 2 ^ 25" using Xhi Xpos by simp
  ultimately obtain \<rho> where \<rho>: "round_double X = Fin \<rho>" "\<bar>\<rho> - X\<bar> \<le> \<bar>X\<bar> / 2 ^ 53"
    using round_double_range by blast
  have d: "js_div (Fin (of_int w)) (Fin (of_int h)) = Fin \<rho>"
    using wr hr \<rho>(1) by (simp add: js_div_finite X_def)
  have err: "\<bar>\<rho> - X\<bar> \<le> X / 2 ^ 53" using \<rho>(2) Xpos by simp
  define \<delta> where "\<delta> = X / 2 ^ 53"
  have "X * (1 - 1 / 2 ^ 53) = X - \<delta>" and "X * (1 + 1 / 2 ^ 53) = X + \<delta>"
    by (simp_all add: algebra_simps \<delta>_def)
  moreover have "\<bar>\<rho> - X\<bar> \<le> \<delta>" using err by (simp only: \<delta>_def)
  ultimately have lo: "X * (1 - 1 / 2 ^ 53) \<le> \<rho>" and hi: "\<rho> \<le> X * (1 + 1 / 2 ^ 53)"
    by (simp_all only: abs_le_iff) linarith+
  have pos: "0 < \<rho>"
  proof -
    have "0 < X * (1 - 1 / 2 ^ 53)" using Xpos by simp
    with lo show ?thesis by linarith
  qed
  have gt: "1 < \<rho>" if "h < w"
  proof -
    have "real_of_int h + 1 \<le> real_of_int w" using that by linarith
    then have "(real_of_int h + 1) / real_of_int h \<le> X"
      unfolding X_def using hr by (intro divide_right_mono) simp_all
    moreover have "(real_of_int h + 1) / real_of_int h = 1 + 1 / real_of_int h"
      using hr by (simp add: field_simps)
    moreover have "1 / 2 ^ 24 \<le> 1 / real_of_int h" using hr by (simp add: field_simps)
    ultimately have "1 + 1 / 2 ^ 24 \<le> X" by linarith
    then have "(1 + 1 / 2 ^ 24) * (1 - 1 / 2 ^ 53) \<le> X * (1 - 1 / 2 ^ 53)"
      by (intro mult_right_mono) simp_all
    moreover have "(1::real) < (1 + 1 / 2 ^ 24) * (1 - 1 / 2 ^ 53)" by simp
    ultimately show ?thesis using lo by linarith
  qed
  have le: "\<rho> \<le> 1" if "\<not> h < w"
  proof (cases "w = h")
    case True
    then have "X = 1" using hr by (simp add: X_def)
    moreover have "round_double 1 = Fin 1" using round_double_int [of 1] by simp
    ultimately show ?thesis using \<rho>(1) by simp
  next
    case False
    with that have "real_of_int w \<le> real_of_int h - 1" by linarith
    then have "X \<le> (real_of_int h - 1) / real_of_int h"
      unfolding X_def using hr by (intro divide_right_mono) simp_all
    moreover have "(real_of_int h - 1) / real_of_int h = 1 - 1 / real_of_int h"
      using hr by (simp add: field_simps)
    moreover have "1 / 2 ^ 24 \<le> 1 / real_of_int h" using hr by (simp add: field_simps)
    ultimately have "X \<le> 1 - 1 / 2 ^ 24" by linarith
    then have "X * (1 + 1 / 2 ^ 53) \<le> (1 - 1 / 2 ^ 24) * (1 + 1 / 2 ^ 53)"
      by (intro mult_right_mono) simp_all
    moreover have "(1 - 1 / 2 ^ 24) * (1 + 1 / 2 ^ 53) < (1::real)" by simp
    ultimately show ?thesis using hi by linarith
  qed
  show ?thesis using d err pos gt le unfolding X_def by blast
qed


lemma int_abs_bound_real:
  fixes a :: int
  assumes "\<bar>a\<bar> \<le> 2 ^ n"
  shows "\<bar>real_of_int a\<bar> \<le> 2 ^ n"
proof -
  have "real_of_int \<bar>a\<bar> \<le> real_of_int (2 ^ n)" using assms by (simp only: of_int_le_iff)
  then show ?thesis by simp
qed

lemma int_nonzero_abs_real:
  fixes a :: int
  assumes "a \<noteq> 0"
  shows "1 \<le> \<bar>real_of_int a\<bar>"
proof -
  have "1 \<le> \<bar>a\<bar>" using assms by simp
  then have "real_of_int 1 \<le> real_of_int \<bar>a\<bar>" by (simp only: of_int_le_iff)
  then show ?thesis by simp
qed

text \<open>A value within \<open>2^(-27)\<close> of a fraction with denominator up to \<open>2^24\<close> rounds to a nearest integer of the fraction.\<close>

lemma round_close:
  fixes p d :: int and v :: real
  assumes d: "0 < d" "d \<le> 2 ^ 24" and v: "\<bar>v - real_of_int p / real_of_int d\<bar> \<le> 1 / 2 ^ 27"
  shows "\<bar>real_of_int \<lfloor>v + 1 / 2\<rfloor> - real_of_int p / real_of_int d\<bar> \<le> 1 / 2"
proof -
  have dr: "0 < real_of_int d" "real_of_int d \<le> 2 ^ 24"
    using d by (simp, metis of_int_le_numeral_power_cancel_iff)
  have "2 * real_of_int d \<le> 2 ^ 25" using dr by simp
  then have "1 / 2 ^ 25 \<le> 1 / (2 * real_of_int d)"
    using dr by (intro divide_left_mono) simp_all
  moreover have "(1::real) / 2 ^ 27 < 1 / 2 ^ 25" by simp
  ultimately have "\<bar>v - real_of_int p / real_of_int d\<bar> < 1 / (2 * real_of_int d)"
    using v by linarith
  with d(1) show ?thesis by (rule round_near)
qed

lemma landscape_height:
  fixes a w h :: int
  assumes h: "0 < h" "h < w" and w: "w \<le> 2 ^ 24" and a: "\<bar>a\<bar> \<le> 2 ^ 25"
      and r1: "1 < \<rho>"
      and err: "\<bar>\<rho> - of_int w / of_int h\<bar> \<le> (of_int w / of_int h) / 2 ^ 53"
  shows "\<exists>H. number_of (Math_round (js_div (Fin (of_int a)) (Fin \<rho>))) = Some (of_int H)
           \<and> \<bar>real_of_int H - real_of_int a / (real_of_int w / real_of_int h)\<bar> \<le> 1 / 2"
proof (cases "a = 0")
  case True
  have "js_div (Fin 0) (Fin \<rho>) = Fin 0" using r1 by (simp add: js_div_def signed_zero_def)
  then have "number_of (Math_round (js_div (Fin (of_int a)) (Fin \<rho>))) = Some (of_int 0)"
    using True by (simp add: Let_def)
  moreover have "\<bar>real_of_int 0 - real_of_int a / (real_of_int w / real_of_int h)\<bar> \<le> 1 / 2"
    using True by simp
  ultimately show ?thesis by blast
next
  case False
  define A where "A = real_of_int a"
  define X where "X = real_of_int w / real_of_int h"
  define t where "t = A / \<rho>"
  define \<epsilon> where "\<epsilon> = (1::real) / 2 ^ 53"
  have wpos: "0 < w" using h by simp
  have hr: "0 < real_of_int h" and wr: "0 < real_of_int w" using h by simp_all
  have A1: "1 \<le> \<bar>A\<bar>" unfolding A_def using False by (rule int_nonzero_abs_real)
  have A2: "\<bar>A\<bar> \<le> 2 ^ 25" unfolding A_def using a by (rule int_abs_bound_real)
  have X1: "1 < X" unfolding X_def using h hr by simp
  have X2: "X \<le> 2 ^ 24"
  proof -
    have "real_of_int w \<le> 2 ^ 24" using w by (metis of_int_le_numeral_power_cancel_iff)
    moreover have "1 \<le> real_of_int h" using h by simp
    ultimately have "real_of_int w / real_of_int h \<le> 2 ^ 24 / 1"
      using wr by (intro frac_le) simp_all
    then show ?thesis by (simp add: X_def)
  qed
  have eps: "0 < \<epsilon>" "\<epsilon> < 1" by (simp_all add: \<epsilon>_def)
  have errX: "\<bar>\<rho> - X\<bar> \<le> X * \<epsilon>" using err by (simp add: X_def \<epsilon>_def)
  have "X * \<epsilon> \<le> X * 1" using eps X1 by (intro mult_left_mono) simp_all
  moreover have "(2::real) ^ 25 = 2 * 2 ^ 24" by simp
  moreover have "\<rho> - X \<le> X * \<epsilon>" using errX by (simp only: abs_le_iff)
  ultimately have \<rho>hi: "\<rho> \<le> 2 ^ 25" using X2 by linarith
  have \<rho>pos: "0 < \<rho>" using r1 by simp
  have tabs: "\<bar>t\<bar> = \<bar>A\<bar> / \<rho>" using \<rho>pos by (simp add: t_def)
  have t_hi: "\<bar>t\<bar> \<le> \<bar>A\<bar>"
  proof -
    have "\<bar>A\<bar> / \<rho> \<le> \<bar>A\<bar> / 1" using r1 by (intro divide_left_mono) simp_all
    then show ?thesis using tabs by simp
  qed
  have t_lo: "1 / 2 ^ 25 \<le> \<bar>t\<bar>"
  proof -
    have "1 / 2 ^ 25 \<le> 1 / \<rho>" using \<rho>pos \<rho>hi by (intro divide_left_mono) simp_all
    also have "\<dots> \<le> \<bar>A\<bar> / \<rho>" using A1 \<rho>pos by (intro divide_right_mono) simp_all
    finally show ?thesis using tabs by simp
  qed
  have "\<bar>t\<bar> \<le> 2 ^ 25" using t_hi A2 by linarith
  with t_lo obtain v where v: "round_double t = Fin v" "\<bar>v - t\<bar> \<le> \<bar>t\<bar> / 2 ^ 53"
    using round_double_range by blast
  have d: "js_div (Fin (of_int a)) (Fin \<rho>) = Fin v"
    using False \<rho>pos v(1) by (simp add: js_div_finite t_def A_def)
  have e1: "\<bar>v - t\<bar> \<le> \<bar>A\<bar> * \<epsilon>"
  proof -
    have "\<bar>t\<bar> / 2 ^ 53 = \<bar>t\<bar> * \<epsilon>" by (simp add: \<epsilon>_def)
    also have "\<dots> \<le> \<bar>A\<bar> * \<epsilon>" using t_hi eps by (intro mult_right_mono) simp_all
    finally show ?thesis using v(2) by linarith
  qed
  have e2: "\<bar>t - A / X\<bar> \<le> \<bar>A\<bar> * \<epsilon>"
  proof -
    have "t - A / X = A * (X - \<rho>) / (\<rho> * X)"
      using \<rho>pos X1 by (simp add: t_def field_simps)
    then have "\<bar>t - A / X\<bar> = \<bar>A\<bar> * \<bar>\<rho> - X\<bar> / (\<rho> * X)"
      using \<rho>pos X1 by (simp add: abs_mult abs_minus_commute)
    also have "\<dots> \<le> \<bar>A\<bar> * (X * \<epsilon>) / (\<rho> * X)"
      using errX \<rho>pos X1 by (intro divide_right_mono mult_left_mono) simp_all
    also have "\<dots> = \<bar>A\<bar> * \<epsilon> / \<rho>" using X1 by simp
    also have "\<dots> \<le> \<bar>A\<bar> * \<epsilon> / 1" using r1 eps by (intro divide_left_mono) simp_all
    finally show ?thesis by simp
  qed
  have "\<bar>A\<bar> * \<epsilon> \<le> 2 ^ 25 * \<epsilon>" using A2 eps by (intro mult_right_mono) simp_all
  also have "2 ^ 25 * \<epsilon> = 1 / 2 ^ 28" by (simp add: \<epsilon>_def)
  finally have e3: "\<bar>A\<bar> * \<epsilon> \<le> 1 / 2 ^ 28" .
  have "\<bar>v - A / X\<bar> \<le> \<bar>v - t\<bar> + \<bar>t - A / X\<bar>" by linarith
  also have "\<dots> \<le> 1 / 2 ^ 28 + 1 / 2 ^ 28" using e1 e2 e3 by linarith
  also have "\<dots> = 1 / 2 ^ 27" by simp
  finally have close: "\<bar>v - A / X\<bar> \<le> 1 / 2 ^ 27" .
  have frac: "A / X = real_of_int (a * h) / real_of_int w"
    using hr wr by (simp add: A_def X_def)
  from close have "\<bar>v - real_of_int (a * h) / real_of_int w\<bar> \<le> 1 / 2 ^ 27"
    by (simp only: frac)
  from round_close [OF wpos w this]
  have "\<bar>real_of_int \<lfloor>v + 1 / 2\<rfloor> - A / X\<bar> \<le> 1 / 2" by (simp only: frac)
  moreover have "number_of (Math_round (js_div (Fin (of_int a)) (Fin \<rho>))) = Some (of_int \<lfloor>v + 1 / 2\<rfloor>)"
    unfolding d by (rule number_of_round)
  ultimately show ?thesis unfolding A_def X_def by blast
qed


lemma portrait_width:
  fixes b w h :: int
  assumes w: "0 < w" "w \<le> h" and h: "h \<le> 2 ^ 24" and b: "\<bar>b\<bar> \<le> 2 ^ 25"
      and r: "0 < \<rho>" "\<rho> \<le> 1"
      and err: "\<bar>\<rho> - of_int w / of_int h\<bar> \<le> (of_int w / of_int h) / 2 ^ 53"
  shows "\<exists>W. number_of (Math_round (js_mul (Fin (of_int b)) (Fin \<rho>))) = Some (of_int W)
           \<and> \<bar>real_of_int W - real_of_int b * (real_of_int w / real_of_int h)\<bar> \<le> 1 / 2"
proof (cases "b = 0")
  case True
  have "js_mul (Fin 0) (Fin \<rho>) = Fin 0" using r by (simp add: js_mul_def signed_zero_def)
  then have "number_of (Math_round (js_mul (Fin (of_int b)) (Fin \<rho>))) = Some (of_int 0)"
    using True by (simp add: Let_def)
  moreover have "\<bar>real_of_int 0 - real_of_int b * (real_of_int w / real_of_int h)\<bar> \<le> 1 / 2"
    using True by simp
  ultimately show ?thesis by blast
next
  case False
  define B where "B = real_of_int b"
  define X where "X = real_of_int w / real_of_int h"
  define t where "t = B * \<rho>"
  define \<epsilon> where "\<epsilon> = (1::real) / 2 ^ 53"
  have hpos: "0 < h" using w by simp
  have hr: "0 < real_of_int h" and wr: "0 < real_of_int w" using w by simp_all
  have B1: "1 \<le> \<bar>B\<bar>" unfolding B_def using False by (rule int_nonzero_abs_real)
  have B2: "\<bar>B\<bar> \<le> 2 ^ 25" unfolding B_def using b by (rule int_abs_bound_real)
  have X0: "0 < X" unfolding X_def using hr wr by simp
  have X1: "X \<le> 1" unfolding X_def using w hr by simp
  have X2: "1 / 2 ^ 24 \<le> X"
  proof -
    have "real_of_int h \<le> 2 ^ 24" using h by (metis of_int_le_numeral_power_cancel_iff)
    moreover have "1 \<le> real_of_int w" using w by simp
    ultimately have "1 / 2 ^ 24 \<le> real_of_int w / real_of_int h"
      using hr by (intro frac_le) simp_all
    then show ?thesis by (simp add: X_def)
  qed
  have eps: "0 < \<epsilon>" "\<epsilon> \<le> 1 / 2" by (simp_all add: \<epsilon>_def)
  have errX: "\<bar>\<rho> - X\<bar> \<le> X * \<epsilon>" using err by (simp add: X_def \<epsilon>_def)
  have "X * \<epsilon> \<le> X * (1 / 2)" using eps X0 by (intro mult_left_mono) simp_all
  moreover have "X - \<rho> \<le> X * \<epsilon>" using errX by (simp only: abs_le_iff) simp
  moreover have "(1::real) / 2 ^ 24 = 2 * (1 / 2 ^ 25)" by simp
  ultimately have \<rho>lo: "1 / 2 ^ 25 \<le> \<rho>" using X2 by linarith
  have tabs: "\<bar>t\<bar> = \<bar>B\<bar> * \<rho>" using r by (simp add: t_def abs_mult)
  have t_hi: "\<bar>t\<bar> \<le> \<bar>B\<bar>"
  proof -
    have "\<bar>B\<bar> * \<rho> \<le> \<bar>B\<bar> * 1" using r by (intro mult_left_mono) simp_all
    then show ?thesis using tabs by simp
  qed
  have t_lo: "1 / 2 ^ 25 \<le> \<bar>t\<bar>"
  proof -
    have "1 * \<rho> \<le> \<bar>B\<bar> * \<rho>" using B1 r by (intro mult_right_mono) simp_all
    then have "\<rho> \<le> \<bar>t\<bar>" by (simp only: tabs mult_1)
    with \<rho>lo show ?thesis by linarith
  qed
  have "\<bar>t\<bar> \<le> 2 ^ 25" using t_hi B2 by linarith
  with t_lo obtain v where v: "round_double t = Fin v" "\<bar>v - t\<bar> \<le> \<bar>t\<bar> / 2 ^ 53"
    using round_double_range by blast
  have d: "js_mul (Fin (of_int b)) (Fin \<rho>) = Fin v"
    using False r v(1) by (simp add: js_mul_finite t_def B_def)
  have e1: "\<bar>v - t\<bar> \<le> \<bar>B\<bar> * \<epsilon>"
  proof -
    have "\<bar>t\<bar> / 2 ^ 53 = \<bar>t\<bar> * \<epsilon>" by (simp add: \<epsilon>_def)
    also have "\<dots> \<le> \<bar>B\<bar> * \<epsilon>" using t_hi eps by (intro mult_right_mono) simp_all
    finally show ?thesis using v(2) by linarith
  qed
  have e2: "\<bar>t - B * X\<bar> \<le> \<bar>B\<bar> * \<epsilon>"
  proof -
    have "t - B * X = B * (\<rho> - X)" by (simp add: t_def algebra_simps)
    then have "\<bar>t - B * X\<bar> = \<bar>B\<bar> * \<bar>\<rho> - X\<bar>" by (simp add: abs_mult)
    also have "\<dots> \<le> \<bar>B\<bar> * (X * \<epsilon>)" using errX by (intro mult_left_mono) simp_all
    also have "\<dots> \<le> \<bar>B\<bar> * (1 * \<epsilon>)"
      using X1 eps by (intro mult_left_mono mult_right_mono) simp_all
    finally show ?thesis by simp
  qed
  have "\<bar>B\<bar> * \<epsilon> \<le> 2 ^ 25 * \<epsilon>" using B2 eps by (intro mult_right_mono) simp_all
  also have "2 ^ 25 * \<epsilon> = 1 / 2 ^ 28" by (simp add: \<epsilon>_def)
  finally have e3: "\<bar>B\<bar> * \<epsilon> \<le> 1 / 2 ^ 28" .
  have "\<bar>v - B * X\<bar> \<le> \<bar>v - t\<bar> + \<bar>t - B * X\<bar>" by linarith
  also have "\<dots> \<le> 1 / 2 ^ 28 + 1 / 2 ^ 28" using e1 e2 e3 by linarith
  also have "\<dots> = 1 / 2 ^ 27" by simp
  finally have close: "\<bar>v - B * X\<bar> \<le> 1 / 2 ^ 27" .
  have frac: "B * X = real_of_int (b * w) / real_of_int h"
    using hr by (simp add: B_def X_def)
  from close have "\<bar>v - real_of_int (b * w) / real_of_int h\<bar> \<le> 1 / 2 ^ 27"
    by (simp only: frac)
  from round_close [OF hpos h this]
  have "\<bar>real_of_int \<lfloor>v + 1 / 2\<rfloor> - B * X\<bar> \<le> 1 / 2" by (simp only: frac)
  moreover have "number_of (Math_round (js_mul (Fin (of_int b)) (Fin \<rho>))) = Some (of_int \<lfloor>v + 1 / 2\<rfloor>)"
    unfolding d by (rule number_of_round)
  ultimately show ?thesis unfolding B_def X_def by blast
qed


section \<open>Display dimensions\<close>

lemma calculateDimensions_landscape:
  assumes "js_div (width r) (height r) = Fin \<rho>" and "1 < \<rho>" and "width r = Fin (of_int w)"
  shows "dimensions (calculateDimensions win r st) =
           \<lparr>dim_width = Fin (of_int (min (min 1280 (innerWidth win - 100)) w)),
            dim_height = Math_round (js_div (Fin (of_int (min (min 1280 (innerWidth win - 100)) w)))
                           (Fin \<rho>))\<rparr>"
proof -
  have m: "Math_min (Math_min (Fin 1280) (Fin (of_int (innerWidth win - 100)))) (Fin (of_int w)) =
             Fin (of_int (min (min 1280 (innerWidth win - 100)) w))"
    by (simp only: Math_min_Fin of_int_min of_int_numeral)
  show ?thesis
    using assms(1,2) by (simp add: calculateDimensions_def Let_def js_gt_def assms(3) m Math_round_int
        del: Math_round.simps of_int_min of_int_diff)
qed

lemma calculateDimensions_portrait:
  assumes "js_div (width r) (height r) = Fin \<rho>" and "\<not> 1 < \<rho>" and "height r = Fin (of_int h)"
  shows "dimensions (calculateDimensions win r st) =
           \<lparr>dim_width = Math_round (js_mul (Fin (of_int (min (innerHeight win - 100) h))) (Fin \<rho>)),
            dim_height = Fin (of_int (min (innerHeight win - 100) h))\<rparr>"
proof -
  have m: "Math_min (Fin (of_int (innerHeight win - 100))) (Fin (of_int h)) =
             Fin (of_int (min (innerHeight win - 100) h))"
    by (simp only: Math_min_Fin of_int_min)
  show ?thesis
    using assms(1,2) by (simp add: calculateDimensions_def Let_def js_gt_def assms(3) m Math_round_int
        del: Math_round.simps of_int_min of_int_diff)
qed

text \<open>
  The model on sizes where the double result is not the exact one: 2048 x 1564 and
  507 x 960 are exact ties (977.5 and 422.5) that the doubles put just below the tie,
  and a height of negative zero gives a NaN width.
\<close>

lemma round_double_2: "round_double 2 = Fin 2"
  using round_double_int [of 2] by simp

lemma round_double_640: "round_double 640 = Fin 640"
  using round_double_int [of 640] by simp

lemma calculateDimensions_2000_1000:
  assumes "width r = Fin 2000" and "height r = Fin 1000"
  shows "dimensions (calculateDimensions \<lparr>innerWidth = 1400, innerHeight = 900\<rparr> r st) =
           \<lparr>dim_width = Fin 1280, dim_height = Fin 640\<rparr>"
proof -
  have d: "js_div (width r) (height r) = Fin 2"
    by (simp add: assms js_div_finite round_double_2)
  have w: "width r = Fin (of_int 2000)" by (simp add: assms)
  have "js_div (Fin 1280) (Fin 2) = Fin 640" by (simp add: js_div_finite round_double_640)
  then show ?thesis
    using calculateDimensions_landscape [OF d _ w, of "\<lparr>innerWidth = 1400, innerHeight = 900\<rparr>" st]
    by (simp add: Let_def)
qed

lemma ratio_2048_1564:
  "js_div (Fin 2048) (Fin 1564) = Fin (5897296698756251 / 4503599627370496)"
  by (simp add: js_div_finite, subst round_double_eval [where k = 0])
     (simp_all add: pow2_def round_half_even_def Let_def)

lemma height_1280_tie:
  "js_div (Fin 1280) (Fin (5897296698756251 / 4503599627370496)) =
     Fin (8598180929208319 / 8796093022208)"
  by (simp add: js_div_finite, subst round_double_eval [where k = 9])
     (simp_all add: pow2_def round_half_even_def Let_def)

lemma calculateDimensions_tie:
  "dimensions (calculateDimensions desktop tie_photo st) =
     \<lparr>dim_width = Fin 1280, dim_height = Fin 977\<rparr>"
proof -
  have d: "js_div (width tie_photo) (height tie_photo) = Fin (5897296698756251 / 4503599627370496)"
    by (simp add: tie_photo_def ratio_2048_1564)
  have w: "width tie_photo = Fin (of_int 2048)" by (simp add: tie_photo_def)
  show ?thesis
    using calculateDimensions_landscape [OF d _ w, of desktop st]
    by (simp add: desktop_def height_1280_tie Let_def)
qed

lemma ratio_507_960: "js_div (Fin 507) (Fin 960) = Fin (2378463553205043 / 4503599627370496)"
  by (simp add: js_div_finite, subst round_double_eval [where k = "- 1"])
     (simp_all add: pow2_def round_half_even_def Let_def)

lemma width_800_tie:
  "js_mul (Fin 800) (Fin (2378463553205043 / 4503599627370496)) =
     Fin (7432698603765759 / 17592186044416)"
  by (simp add: js_mul_finite, subst round_double_eval [where k = 8])
     (simp_all add: pow2_def round_half_even_def Let_def)

lemma calculateDimensions_507_960:
  assumes "width r = Fin 507" and "height r = Fin 960"
  shows "dimensions (calculateDimensions \<lparr>innerWidth = 1400, innerHeight = 900\<rparr> r st) =
           \<lparr>dim_width = Fin 422, dim_height = Fin 800\<rparr>"
proof -
  have d: "js_div (width r) (height r) = Fin (2378463553205043 / 4503599627370496)"
    by (simp add: assms ratio_507_960)
  have h: "height r = Fin (of_int 960)" by (simp add: assms)
  show ?thesis
    using calculateDimensions_portrait [OF d _ h, of "\<lparr>innerWidth = 1400, innerHeight = 900\<rparr>" st]
    by (simp add: width_800_tie Let_def)
qed

lemma calculateDimensions_negative_zero_height:
  assumes "width r = Fin 1000" and "height r = NegZero"
  shows "dimensions (calculateDimensions \<lparr>innerWidth = 1400, innerHeight = 900\<rparr> r st) =
           \<lparr>dim_width = NaN, dim_height = NegZero\<rparr>"
  by (simp add: calculateDimensions_def assms js_div_def js_mul_def js_gt_def Math_min_def
      signed_inf_def Let_def)

lemma calculateDimensions_portrait_example:
  "dimensions (calculateDimensions \<lparr>innerWidth = 1400, innerHeight = 900\<rparr>
      (r\<lparr>width := Fin 800, height := Fin 1600\<rparr>) st) =
   \<lparr>dim_width = Fin 400, dim_height = Fin 800\<rparr>"
proof -
  have "round_double (800 / 1600) = Fin (1 / 2)"
    by (subst round_double_eval [where k = "- 1"])
       (simp_all add: pow2_def round_half_even_def Let_def)
  then have d: "js_div (width (r\<lparr>width := Fin 800, height := Fin 1600\<rparr>))
                  (height (r\<lparr>width := Fin 800, height := Fin 1600\<rparr>)) = Fin (1 / 2)"
    by (simp add: js_div_finite)
  have h: "height (r\<lparr>width := Fin 800, height := Fin 1600\<rparr>) = Fin (of_int 1600)" by simp
  have "round_double 400 = Fin 400" using round_double_int [of 400] by simp
  then have "js_mul (Fin 800) (Fin (1 / 2)) = Fin 400" by (simp add: js_mul_finite)
  then show ?thesis
    using calculateDimensions_portrait [OF d _ h, of "\<lparr>innerWidth = 1400, innerHeight = 900\<rparr>" st]
    by (simp add: Let_def)
qed

lemma calculateDimensions_photo:
  assumes "width r = Fin 2000" and "height r = Fin 1000"
  shows "calculateDimensions \<lparr>innerWidth = 1400, innerHeight = 900\<rparr> r st =
           st\<lparr>dimensions := \<lparr>dim_width = Fin 1280, dim_height = Fin 640\<rparr>\<rparr>"
proof -
  have "calculateDimensions \<lparr>innerWidth = 1400, innerHeight = 900\<rparr> r st =
          st\<lparr>dimensions := dimensions (calculateDimensions \<lparr>innerWidth = 1400, innerHeight = 900\<rparr> r st)\<rparr>"
    by (simp add: calculateDimensions_def Let_def split: prod.splits)
  then show ?thesis by (simp only: calculateDimensions_2000_1000 [OF assms])
qed

text \<open>
  C1. For every photo record and every viewport, \<open>calculateDimensions\<close> stores the
  dimensions of the specification's \<open>computeDisplayDimensions\<close>: with
  \<open>maxW = min(1280, vw - 100)\<close>, \<open>maxH = vh - 100\<close> and \<open>ratio = w / h\<close>, the landscape
  branch (\<open>ratio > 1\<close>) has \<open>width = min(maxW, w)\<close> and \<open>height = width / ratio\<close>, the other
  branch has \<open>height = min(maxH, h)\<close> and \<open>width = height * ratio\<close>, both rounded. The
  stored dimensions do not depend on the state before the call, and \<open>loaded\<close> is left
  alone. For an intrinsic size of positive integers up to \<open>2^24\<close> and a viewport within
  \<open>2^24\<close>, the double arithmetic means what the words say: both outputs are integers, the
  clamped side is exactly the minimum, and the other side is a nearest integer of the
  exact quotient or product (within one half of it).
\<close>

theorem calculateDimensions_meets_spec:
  fixes w h :: int
  shows "dimensions (calculateDimensions win r st) =
     computeDisplayDimensions_spec (width r) (height r) (innerWidth win) (innerHeight win)
   \<and> dimensions (calculateDimensions win r st) = dimensions (calculateDimensions win r st')
   \<and> loaded (calculateDimensions win r st) = loaded st
   \<and> (width r = Fin (of_int w) \<and> height r = Fin (of_int h)
        \<and> 0 < w \<and> w \<le> 2 ^ 24 \<and> 0 < h \<and> h \<le> 2 ^ 24
        \<and> \<bar>innerWidth win\<bar> \<le> 2 ^ 24 \<and> \<bar>innerHeight win\<bar> \<le> 2 ^ 24 \<longrightarrow>
       (\<exists>W H. number_of (dim_width (dimensions (calculateDimensions win r st))) = Some (of_int W)
          \<and> number_of (dim_height (dimensions (calculateDimensions win r st))) = Some (of_int H)
          \<and> (if 1 < real_of_int w / real_of_int h
              then W = min (min 1280 (innerWidth win - 100)) w
                 \<and> \<bar>real_of_int H - real_of_int W / (real_of_int w / real_of_int h)\<bar> \<le> 1 / 2
              else H = min (innerHeight win - 100) h
                 \<and> \<bar>real_of_int W - real_of_int H * (real_of_int w / real_of_int h)\<bar> \<le> 1 / 2)))"
proof -
  have formula: "dimensions (calculateDimensions win r st) =
     computeDisplayDimensions_spec (width r) (height r) (innerWidth win) (innerHeight win)"
    by (simp add: calculateDimensions_def computeDisplayDimensions_spec_def Let_def
        split: prod.splits)
  have pure: "dimensions (calculateDimensions win r st) = dimensions (calculateDimensions win r st')"
    by (simp add: calculateDimensions_def Let_def split: prod.splits)
  have flag: "loaded (calculateDimensions win r st) = loaded st"
    by (simp add: calculateDimensions_def Let_def split: prod.splits)
  have meaning: "\<exists>W H. number_of (dim_width (dimensions (calculateDimensions win r st))) = Some (of_int W)
          \<and> number_of (dim_height (dimensions (calculateDimensions win r st))) = Some (of_int H)
          \<and> (if 1 < real_of_int w / real_of_int h
              then W = min (min 1280 (innerWidth win - 100)) w
                 \<and> \<bar>real_of_int H - real_of_int W / (real_of_int w / real_of_int h)\<bar> \<le> 1 / 2
              else H = min (innerHeight win - 100) h
                 \<and> \<bar>real_of_int W - real_of_int H * (real_of_int w / real_of_int h)\<bar> \<le> 1 / 2)"
    if rw: "width r = Fin (of_int w)" and rh: "height r = Fin (of_int h)"
      and w: "0 < w" "w \<le> 2 ^ 24" and h: "0 < h" "h \<le> 2 ^ 24"
      and vw: "\<bar>innerWidth win\<bar> \<le> 2 ^ 24" and vh: "\<bar>innerHeight win\<bar> \<le> 2 ^ 24"
  proof -
    from ratio_double [OF w h] obtain \<rho> where
      \<rho>: "js_div (Fin (of_int w)) (Fin (of_int h)) = Fin \<rho>"
         "\<bar>\<rho> - of_int w / of_int h\<bar> \<le> (of_int w / of_int h) / 2 ^ 53"
         "0 < \<rho>" "h < w \<longrightarrow> 1 < \<rho>" "\<not> h < w \<longrightarrow> \<rho> \<le> 1" by blast
    have d: "js_div (width r) (height r) = Fin \<rho>" using \<rho>(1) by (simp only: rw rh)
    have big: "(2::int) ^ 25 = 2 * 2 ^ 24" by simp
    have ratio: "1 < real_of_int w / real_of_int h \<longleftrightarrow> h < w" using h by simp
    show ?thesis
    proof (cases "h < w")
      case True
      define a where "a = min (min 1280 (innerWidth win - 100)) w"
      have "1 < \<rho>" using \<rho>(4) True by simp
      note dims = calculateDimensions_landscape [OF d this rw, of win st, folded a_def]
      have "(1280::int) \<le> 2 ^ 24" by simp
      then have "\<bar>a\<bar> \<le> 2 ^ 25" unfolding a_def using w vw big by (simp only: min_def) (auto split: if_splits)
      from landscape_height [OF h(1) True w(2) this \<open>1 < \<rho>\<close> \<rho>(2)] obtain H where
        H: "number_of (Math_round (js_div (Fin (of_int a)) (Fin \<rho>))) = Some (of_int H)"
           "\<bar>real_of_int H - real_of_int a / (real_of_int w / real_of_int h)\<bar> \<le> 1 / 2" by blast
      have "number_of (dim_width (dimensions (calculateDimensions win r st))) = Some (of_int a)"
        by (simp only: dims dimensions_t.simps number_of.simps)
      moreover have "number_of (dim_height (dimensions (calculateDimensions win r st))) = Some (of_int H)"
        using H(1) by (simp only: dims dimensions_t.simps)
      ultimately show ?thesis using H(2) True ratio unfolding a_def by auto
    next
      case False
      define b where "b = min (innerHeight win - 100) h"
      have le: "\<rho> \<le> 1" using \<rho>(5) False by simp
      then have "\<not> 1 < \<rho>" by simp
      note dims = calculateDimensions_portrait [OF d this rh, of win st, folded b_def]
      have "\<bar>b\<bar> \<le> 2 ^ 25" unfolding b_def using h vh big by (simp only: min_def) (auto split: if_splits)
      moreover have "w \<le> h" using False by simp
      ultimately obtain W where
        W: "number_of (Math_round (js_mul (Fin (of_int b)) (Fin \<rho>))) = Some (of_int W)"
           "\<bar>real_of_int W - real_of_int b * (real_of_int w / real_of_int h)\<bar> \<le> 1 / 2"
        using portrait_width [OF w(1) _ h(2) _ \<rho>(3) le \<rho>(2), of b] by blast
      have "number_of (dim_height (dimensions (calculateDimensions win r st))) = Some (of_int b)"
        by (simp only: dims dimensions_t.simps number_of.simps)
      moreover have "number_of (dim_width (dimensions (calculateDimensions win r st))) = Some (of_int W)"
        using W(1) by (simp only: dims dimensions_t.simps)
      ultimately show ?thesis using W(2) False ratio unfolding b_def by auto
    qed
  qed
  from formula pure flag meaning show ?thesis by blast
qed


theorem calculateDimensions_meets_spec_witness:
  "dimensions (calculateDimensions desktop tie_photo initial_state) =
     \<lparr>dim_width = Fin 1280, dim_height = Fin 977\<rparr>
   \<and> \<bar>real_of_int 977 - real_of_int 1280 / (real_of_int 2048 / real_of_int 1564)\<bar> \<le> 1 / 2"
proof -
  have hyp: "width tie_photo = Fin (of_int 2048) \<and> height tie_photo = Fin (of_int 1564)
        \<and> (0::int) < 2048 \<and> (2048::int) \<le> 2 ^ 24 \<and> (0::int) < 1564 \<and> (1564::int) \<le> 2 ^ 24
        \<and> \<bar>innerWidth desktop\<bar> \<le> 2 ^ 24 \<and> \<bar>innerHeight desktop\<bar> \<le> 2 ^ 24"
    by (simp add: tie_photo_def desktop_def)
  from calculateDimensions_meets_spec [of desktop tie_photo initial_state initial_state 2048 1564] hyp
  obtain W H where
    WH: "number_of (dim_width (dimensions (calculateDimensions desktop tie_photo initial_state))) = Some (of_int W)"
        "number_of (dim_height (dimensions (calculateDimensions desktop tie_photo initial_state))) = Some (of_int H)"
        "if 1 < real_of_int 2048 / real_of_int 1564
              then W = min (min 1280 (innerWidth desktop - 100)) 2048
                 \<and> \<bar>real_of_int H - real_of_int W / (real_of_int 2048 / real_of_int 1564)\<bar> \<le> 1 / 2
              else H = min (innerHeight desktop - 100) 1564
                 \<and> \<bar>real_of_int W - real_of_int H * (real_of_int 2048 / real_of_int 1564)\<bar> \<le> 1 / 2"
    by blast
  have ev: "dimensions (calculateDimensions desktop tie_photo initial_state) =
     \<lparr>dim_width = Fin 1280, dim_height = Fin 977\<rparr>" by (rule calculateDimensions_tie)
  from WH(1,2) have "real_of_int W = 1280" "real_of_int H = 977" by (simp_all add: ev)
  then have "W = 1280" "H = 977" by linarith+
  with WH(3) have "\<bar>real_of_int 977 - real_of_int 1280 / (real_of_int 2048 / real_of_int 1564)\<bar> \<le> 1 / 2"
    by (simp add: desktop_def)
  with ev show ?thesis by blast
qed


text \<open>
  C8, as stated: the landscape record 2000 x 1000 under the viewport 1400 x 900 is said
  to get the dimensions 1180 x 590. It does not.
\<close>

theorem calculateDimensions_landscape_not_1180_590:
  "dimensions (calculateDimensions \<lparr>innerWidth = 1400, innerHeight = 900\<rparr>
      \<lparr>img_id = 0, height = Fin 1000, width = Fin 2000, public_id = ''p'', format = ''jpg'',
       blurDataUrl = None, navigationId = 0\<rparr> initial_state)
   \<noteq> \<lparr>dim_width = Fin 1180, dim_height = Fin 590\<rparr>"
  by (simp add: calculateDimensions_2000_1000)

text \<open>
  C8, amended: every record of intrinsic width 2000 and height 1000 gets, under the
  viewport 1400 x 900, the dimensions 1280 x 640 (the width is capped at 1280).
\<close>

theorem calculateDimensions_landscape_1280_640:
  "dimensions (calculateDimensions \<lparr>innerWidth = 1400, innerHeight = 900\<rparr>
      (r\<lparr>width := Fin 2000, height := Fin 1000\<rparr>) st) =
   \<lparr>dim_width = Fin 1280, dim_height = Fin 640\<rparr>"
  by (simp add: calculateDimensions_2000_1000)

section \<open>Facts about \<open>find\<close> and the example gallery\<close>

lemma find_unique:
  "distinct (map f xs) \<Longrightarrow> x \<in> set xs \<Longrightarrow> find (\<lambda>y. f y = f x) xs = Some x"
  by (induction xs) (auto simp: image_iff)

lemma find_key_in:
  assumes "distinct (map f xs)" and "k \<in> set (map f xs)"
  shows "\<exists>x. x \<in> set xs \<and> f x = k \<and> find (\<lambda>y. f y = k) xs = Some x"
proof -
  from assms(2) obtain x where x: "x \<in> set xs" "f x = k" by auto
  from find_unique [OF assms(1) x(1)] x show ?thesis by auto
qed

lemma find_key_notin: "k \<notin> set (map f xs) \<Longrightarrow> find (\<lambda>y. f y = k) xs = None"
  by (auto simp: find_None_iff)

lemma gallery_ids: "map img_id (gallery n) = map int [0..<n]"
  by (simp add: gallery_def photo_def comp_def)

lemma gallery_navs: "map navigationId (gallery n) = map int [0..<n]"
  by (simp add: gallery_def photo_def comp_def)

lemma distinct_ints: "distinct (map int [0..<n])"
  by (simp add: distinct_map)

lemma set_ints: "set (map int [0..<n]) = {0..<int n}"
  by (simp add: image_int_atLeastLessThan)

lemma length_gallery: "length (gallery n) = n"
  by (simp add: gallery_def)

lemma gallery_distinct_ids: "distinct (map img_id (gallery n))"
  by (simp only: gallery_ids distinct_ints)

lemma gallery_distinct_navs: "distinct (map navigationId (gallery n))"
  by (simp only: gallery_navs distinct_ints)

lemma gallery_set_ids: "set (map img_id (gallery n)) = {0..<int (length (gallery n))}"
  by (simp only: gallery_ids set_ints length_gallery)

lemma gallery_set_navs: "set (map navigationId (gallery n)) = {0..<int (length (gallery n))}"
  by (simp only: gallery_navs set_ints length_gallery)

lemma gallery_3: "gallery 3 = [photo 0 0, photo 1 1, photo 2 2]"
  by (simp add: gallery_def upt_conv_Cons numeral_3_eq_3)

lemma images_viewer: "images (viewer i imgs) = Some imgs"
  by (simp add: viewer_def)

lemma index_viewer: "index (viewer i imgs) = i"
  by (simp add: viewer_def)

section \<open>The filmstrip window\<close>

lemma filteredImages_filter:
  "images p = Some imgs \<Longrightarrow>
   filteredImages p =
     Some (filter (\<lambda>img. index p - 15 \<le> img_id img \<and> img_id img \<le> index p + 15) imgs)"
  by (simp add: filteredImages_def range_list_def)

lemma window_count:
  assumes "distinct (map img_id imgs)"
      and "set (map img_id imgs) = {0..<int (length imgs)}"
  shows "int (length (filter (\<lambda>img. lo \<le> img_id img \<and> img_id img \<le> hi) imgs)) =
           max 0 (min hi (int (length imgs) - 1) - max lo 0 + 1)"
proof -
  let ?P = "\<lambda>x. lo \<le> x \<and> x \<le> hi"
  have "length (filter (\<lambda>img. ?P (img_id img)) imgs) = length (filter ?P (map img_id imgs))"
    by (simp add: filter_map comp_def)
  also have "\<dots> = card ({x. ?P x} \<inter> set (map img_id imgs))"
    using assms(1) by (rule distinct_length_filter)
  also have "{x. ?P x} \<inter> set (map img_id imgs) = {max lo 0 .. min hi (int (length imgs) - 1)}"
    unfolding assms(2) by auto
  finally show ?thesis by simp
qed

text \<open>
  C3. For a collection of \<open>N\<close> records whose ids are the integers \<open>0..N-1\<close>, each once,
  the filmstrip is exactly the records with an id from \<open>index - 15\<close> to \<open>index + 15\<close>,
  both included, in the order of the collection. Their number is the number of ids of
  \<open>0..N-1\<close> in that interval: never more than \<open>min(31, N)\<close>; exactly \<open>min(31, N)\<close> when
  \<open>15 \<le> index\<close> and \<open>index + 15 \<le> N - 1\<close>; fewer than 31 when \<open>index\<close> is an id less
  than 15 away from \<open>0\<close> or from \<open>N - 1\<close>. No id outside the interval appears.
\<close>

theorem filteredImages_window:
  assumes "images p = Some imgs"
      and "distinct (map img_id imgs)"
      and "set (map img_id imgs) = {0..<int (length imgs)}"
  shows "\<exists>fi. filteredImages p = Some fi
           \<and> fi = filter (\<lambda>img. index p - 15 \<le> img_id img \<and> img_id img \<le> index p + 15) imgs
           \<and> int (length fi) =
               max 0 (min (index p + 15) (int (length imgs) - 1) - max (index p - 15) 0 + 1)
           \<and> length fi \<le> min (2 * 15 + 1) (length imgs)
           \<and> (15 \<le> index p \<and> index p + 15 \<le> int (length imgs) - 1 \<longrightarrow>
                length fi = min (2 * 15 + 1) (length imgs))
           \<and> (0 \<le> index p \<and> index p < int (length imgs) \<and>
                (index p < 15 \<or> int (length imgs) - 1 < index p + 15) \<longrightarrow>
                length fi < 2 * 15 + 1)"
proof -
  let ?fi = "filter (\<lambda>img. index p - 15 \<le> img_id img \<and> img_id img \<le> index p + 15) imgs"
  have fi: "filteredImages p = Some ?fi" using assms(1) by (rule filteredImages_filter)
  have len: "int (length ?fi) =
               max 0 (min (index p + 15) (int (length imgs) - 1) - max (index p - 15) 0 + 1)"
    using assms(2,3) by (rule window_count)
  have le: "length ?fi \<le> length imgs" by simp
  have "length ?fi \<le> min (2 * 15 + 1) (length imgs)" using len le by linarith
  moreover have "15 \<le> index p \<and> index p + 15 \<le> int (length imgs) - 1 \<longrightarrow>
                length ?fi = min (2 * 15 + 1) (length imgs)" using len by linarith
  moreover have "0 \<le> index p \<and> index p < int (length imgs) \<and>
                (index p < 15 \<or> int (length imgs) - 1 < index p + 15) \<longrightarrow>
                length ?fi < 2 * 15 + 1" using len by linarith
  ultimately show ?thesis using fi len by blast
qed

theorem filteredImages_window_witness:
  "(\<exists>fi. filteredImages (viewer 20 (gallery 40)) = Some fi \<and> length fi = 31)
   \<and> (\<exists>fi. filteredImages (viewer 3 (gallery 40)) = Some fi \<and> length fi = 19)"
proof -
  from filteredImages_window [OF images_viewer gallery_distinct_ids gallery_set_ids, of 20 40]
  have "\<exists>fi. filteredImages (viewer 20 (gallery 40)) = Some fi \<and> length fi = 31"
    by (simp add: index_viewer length_gallery)
  moreover
  from filteredImages_window [OF images_viewer gallery_distinct_ids gallery_set_ids, of 3 40]
  have "\<exists>fi. filteredImages (viewer 3 (gallery 40)) = Some fi \<and> length fi = 19"
    by (simp add: index_viewer length_gallery)
  ultimately show ?thesis by blast
qed

section \<open>Neighbours in navigation order\<close>

text \<open>
  C7. In a collection whose ids are distinct and whose navigationIds are the integers
  \<open>0..N-1\<close>, each once, let \<open>A\<close> be the displayed record, not the last in navigation
  order. Then the swipe-left lookup finds a record \<open>B\<close>, the one whose navigationId is
  that of \<open>A\<close> plus one, and the swipe-right lookup from \<open>B\<close> finds \<open>A\<close>.
\<close>

theorem neighbor_inverse:
  assumes imgs: "images p = Some imgs"
      and ids: "distinct (map img_id imgs)"
      and navs: "distinct (map navigationId imgs)"
      and range: "set (map navigationId imgs) = {0..<int (length imgs)}"
      and A: "A \<in> set imgs" "index p = img_id A"
      and notlast: "navigationId A + 1 < int (length imgs)"
  shows "\<exists>B. nextImage p = Some B \<and> navigationId B = navigationId A + 1
             \<and> prevImage (p\<lparr>index := img_id B\<rparr>) = Some A"
proof -
  have cur: "swipe_currentImage p = Some A"
    using imgs A find_unique [OF ids A(1)] by (simp add: swipe_currentImage_def)
  have "navigationId A \<in> set (map navigationId imgs)" using A(1) by simp
  then have "0 \<le> navigationId A" unfolding range by simp
  then have "navigationId A + 1 \<in> set (map navigationId imgs)"
    unfolding range using notlast by simp
  from find_key_in [OF navs this] obtain B where
    B: "B \<in> set imgs" "navigationId B = navigationId A + 1"
       "find (\<lambda>y. navigationId y = navigationId A + 1) imgs = Some B" by blast
  have nxt: "nextImage p = Some B" using imgs cur B(3) by (simp add: nextImage_def)
  have curB: "swipe_currentImage (p\<lparr>index := img_id B\<rparr>) = Some B"
    using imgs find_unique [OF ids B(1)] by (simp add: swipe_currentImage_def)
  have "find (\<lambda>y. navigationId y = navigationId B - 1) imgs = Some A"
    using find_unique [OF navs A(1)] B(2) by simp
  then have "prevImage (p\<lparr>index := img_id B\<rparr>) = Some A"
    using imgs curB by (simp add: prevImage_def)
  with nxt B(2) show ?thesis by blast
qed

theorem neighbor_inverse_witness:
  "nextImage (viewer 0 (gallery 3)) = Some (photo 1 1)
   \<and> prevImage (viewer 1 (gallery 3)) = Some (photo 0 0)"
proof -
  have A: "photo 0 0 \<in> set (gallery 3)" by (simp add: gallery_3)
  have i: "index (viewer 0 (gallery 3)) = img_id (photo 0 0)" by (simp add: viewer_def photo_def)
  have n: "navigationId (photo 0 0) + 1 < int (length (gallery 3))"
    by (simp add: photo_def length_gallery)
  from neighbor_inverse [OF images_viewer gallery_distinct_ids gallery_distinct_navs
      gallery_set_navs A i n]
  obtain B where B: "nextImage (viewer 0 (gallery 3)) = Some B"
      "navigationId B = navigationId (photo 0 0) + 1"
      "prevImage ((viewer 0 (gallery 3))\<lparr>index := img_id B\<rparr>) = Some (photo 0 0)" by blast
  have "nextImage (viewer 0 (gallery 3)) = Some (photo 1 1)"
    by (simp add: nextImage_def swipe_currentImage_def viewer_def gallery_3 photo_def)
  with B have "B = photo 1 1" by simp
  with B show ?thesis by (simp add: viewer_def photo_def)
qed

section \<open>Callbacks of the swipe handlers\<close>

text \<open>
  C4, as stated: two runs of a swipe handler for the same target before the next render
  are said to give one call of \<open>changePhotoId\<close>. They give two.
\<close>

theorem swipe_twice_two_callbacks:
  "onSwipedLeft (viewer 0 (gallery 3)) = [ChangePhotoId 1]
   \<and> fire_all [onSwipedLeft, onSwipedLeft] (viewer 0 (gallery 3)) =
       [ChangePhotoId 1, ChangePhotoId 1]"
  by (simp add: fire_all_def onSwipedLeft_def nextImage_def swipe_currentImage_def viewer_def
      gallery_3 photo_def)

lemma fire_all_replicate: "fire_all (replicate k h) p = concat (replicate k (h p))"
  by (induction k) (simp_all add: fire_all_def)

text \<open>
  C4, amended: one run of a swipe handler calls \<open>changePhotoId\<close> exactly once, with the
  neighbour's id, when the neighbour is found, and not at all otherwise; \<open>k\<close> runs on the
  same render repeat the calls of one run \<open>k\<close> times. Nothing suppresses a duplicate.
\<close>

theorem swipe_one_callback_per_run:
  "(nextImage p = Some n \<longrightarrow> onSwipedLeft p = [ChangePhotoId (img_id n)])
   \<and> (nextImage p = None \<longrightarrow> onSwipedLeft p = [])
   \<and> (prevImage p = Some m \<longrightarrow> onSwipedRight p = [ChangePhotoId (img_id m)])
   \<and> (prevImage p = None \<longrightarrow> onSwipedRight p = [])
   \<and> fire_all (replicate k onSwipedLeft) p = concat (replicate k (onSwipedLeft p))
   \<and> fire_all (replicate k onSwipedRight) p = concat (replicate k (onSwipedRight p))"
  by (simp add: onSwipedLeft_def onSwipedRight_def fire_all_replicate)

theorem swipe_one_callback_per_run_witness:
  "nextImage (viewer 1 (gallery 3)) = Some (photo 2 2)
   \<and> onSwipedLeft (viewer 1 (gallery 3)) = [ChangePhotoId 2]
   \<and> prevImage (viewer 1 (gallery 3)) = Some (photo 0 0)
   \<and> onSwipedRight (viewer 1 (gallery 3)) = [ChangePhotoId 0]
   \<and> nextImage (viewer 2 (gallery 3)) = None
   \<and> onSwipedLeft (viewer 2 (gallery 3)) = []
   \<and> prevImage (viewer 0 (gallery 3)) = None
   \<and> onSwipedRight (viewer 0 (gallery 3)) = []
   \<and> fire_all (replicate 2 onSwipedLeft) (viewer 1 (gallery 3)) =
       [ChangePhotoId 2, ChangePhotoId 2]"
proof -
  have n: "nextImage (viewer 1 (gallery 3)) = Some (photo 2 2)"
    by (simp add: nextImage_def swipe_currentImage_def viewer_def gallery_3 photo_def)
  have m: "prevImage (viewer 1 (gallery 3)) = Some (photo 0 0)"
    by (simp add: prevImage_def swipe_currentImage_def viewer_def gallery_3 photo_def)
  have n': "nextImage (viewer 2 (gallery 3)) = None"
    by (simp add: nextImage_def swipe_currentImage_def viewer_def gallery_3 photo_def)
  have m': "prevImage (viewer 0 (gallery 3)) = None"
    by (simp add: prevImage_def swipe_currentImage_def viewer_def gallery_3 photo_def)
  have i: "img_id (photo 2 2) = 2" "img_id (photo 0 0) = 0" by (simp_all add: photo_def)
  show ?thesis
    using swipe_one_callback_per_run [of "viewer 1 (gallery 3)" "photo 2 2" "photo 0 0" 2]
      swipe_one_callback_per_run [of "viewer 2 (gallery 3)" "photo 2 2" "photo 0 0" 0]
      swipe_one_callback_per_run [of "viewer 0 (gallery 3)" "photo 2 2" "photo 0 0" 0]
      n m n' m' i
    by (simp add: numeral_2_eq_2)
qed

section \<open>Repeated navigationIds\<close>

text \<open>
  C9, as stated: with two records of the same navigationId the lookup is said to fail.
  It returns the first of them, and the handler navigates to it.
\<close>

theorem duplicate_navigationId_first_match:
  "\<not> distinct (map navigationId [photo 0 0, photo 1 1, photo 2 1])
   \<and> nextImage (viewer 0 [photo 0 0, photo 1 1, photo 2 1]) = Some (photo 1 1)
   \<and> onSwipedLeft (viewer 0 [photo 0 0, photo 1 1, photo 2 1]) = [ChangePhotoId 1]"
  by (simp add: onSwipedLeft_def nextImage_def swipe_currentImage_def viewer_def photo_def)

lemma find_first:
  assumes "k < length xs" and "P (xs ! k)" and "\<forall>j<k. \<not> P (xs ! j)"
  shows "find P xs = Some (xs ! k)"
  using assms by (auto simp: find_Some_iff)

text \<open>
  C9, amended: whether or not navigationIds repeat, the lookup raises nothing: it
  returns the first record of the collection, in array order, whose navigationId is the
  displayed record's plus one (swipe left) or minus one (swipe right), and the handler
  calls \<open>changePhotoId\<close> with that record's id.
\<close>

theorem neighbor_first_match:
  assumes "images p = Some imgs" and "swipe_currentImage p = Some cur"
      and "k < length imgs"
  shows "(navigationId (imgs ! k) = navigationId cur + 1
            \<and> (\<forall>j<k. navigationId (imgs ! j) \<noteq> navigationId cur + 1)
          \<longrightarrow> nextImage p = Some (imgs ! k)
              \<and> onSwipedLeft p = [ChangePhotoId (img_id (imgs ! k))])
       \<and> (navigationId (imgs ! k) = navigationId cur - 1
            \<and> (\<forall>j<k. navigationId (imgs ! j) \<noteq> navigationId cur - 1)
          \<longrightarrow> prevImage p = Some (imgs ! k)
              \<and> onSwipedRight p = [ChangePhotoId (img_id (imgs ! k))])"
  using assms
  by (auto simp: nextImage_def prevImage_def onSwipedLeft_def onSwipedRight_def
      find_first [where P = "\<lambda>img. navigationId img = navigationId cur + 1"]
      find_first [where P = "\<lambda>img. navigationId img = navigationId cur - 1"])

theorem neighbor_first_match_witness:
  "nextImage (viewer 0 [photo 0 0, photo 1 1, photo 2 1]) = Some (photo 1 1)
   \<and> prevImage (viewer 1 [photo 0 2, photo 1 3, photo 2 2]) = Some (photo 0 2)"
proof -
  have c: "swipe_currentImage (viewer 0 [photo 0 0, photo 1 1, photo 2 1]) = Some (photo 0 0)"
    by (simp add: swipe_currentImage_def viewer_def photo_def)
  have c': "swipe_currentImage (viewer 1 [photo 0 2, photo 1 3, photo 2 2]) = Some (photo 1 3)"
    by (simp add: swipe_currentImage_def viewer_def photo_def)
  have k: "(1::nat) < length [photo 0 0, photo 1 1, photo 2 1]" by simp
  have k': "(0::nat) < length [photo 0 2, photo 1 3, photo 2 2]" by simp
  show ?thesis
    using neighbor_first_match [OF images_viewer c k] neighbor_first_match [OF images_viewer c' k']
    by (simp add: photo_def)
qed

section \<open>What is rendered before the image has loaded\<close>

lemma render_Inr:
  "render p st = Inr els \<Longrightarrow>
   \<exists>cur bs bar. currentImage p = Some cur \<and> render_buttons p st cur = Inr bs
      \<and> render_navbar p = Inr bar \<and> els = MainImage cur (dimensions st) # bs @ bar"
  by (auto simp: render_def split: option.splits sum.splits)

lemma render_buttons_loaded:
  "render_buttons p st cur = Inr bs \<Longrightarrow> e \<in> set bs \<Longrightarrow> loaded st \<and> is_overlay_control e"
  by (auto simp: render_buttons_def split: if_splits option.splits)

lemma render_buttons_close:
  "render_buttons p st cur = Inr bs \<Longrightarrow> loaded st \<Longrightarrow> CloseButton CloseModal \<in> set bs"
  by (auto simp: render_buttons_def split: if_splits option.splits)

lemma render_navbar_elems:
  "render_navbar p = Inr bar \<Longrightarrow> (\<forall>e\<in>set bar. is_filmstrip e) \<and> (bar \<noteq> [] \<longleftrightarrow> navigation p)"
  by (auto simp: render_navbar_def split: if_splits option.splits)

text \<open>
  C6, as stated: nothing of the overlay controls and the bottom filmstrip is said to be
  rendered while \<open>loaded\<close> is false. The filmstrip is.
\<close>

theorem filmstrip_rendered_before_load:
  "\<not> loaded initial_state
   \<and> render (viewer 0 (gallery 3)) initial_state =
       Inr [MainImage (photo 0 0) (dimensions initial_state),
            BottomNavBar [(0, ChangePhotoId 0), (1, ChangePhotoId 1), (2, ChangePhotoId 2)]]"
  by (simp add: render_def render_buttons_def render_navbar_def currentImage_def
      filteredImages_def range_list_def viewer_def gallery_3 photo_def initial_state_def)

text \<open>
  C6, amended: in every render that succeeds, an overlay control (a prev or next button,
  the close button, the open-original link) is rendered exactly when \<open>loaded\<close> is true,
  and the bottom filmstrip is rendered exactly when \<open>navigation\<close> is true, loaded or not.
\<close>

theorem render_gates:
  assumes "render p st = Inr els"
  shows "((\<exists>e\<in>set els. is_overlay_control e) \<longleftrightarrow> loaded st)
       \<and> ((\<exists>e\<in>set els. is_filmstrip e) \<longleftrightarrow> navigation p)"
proof -
  from render_Inr [OF assms] obtain cur bs bar where
    r: "currentImage p = Some cur" "render_buttons p st cur = Inr bs"
       "render_navbar p = Inr bar" "els = MainImage cur (dimensions st) # bs @ bar" by blast
  have bs: "\<And>e. e \<in> set bs \<Longrightarrow> loaded st \<and> is_overlay_control e"
    using render_buttons_loaded [OF r(2)] by blast
  have bar: "\<forall>e\<in>set bar. is_filmstrip e" "bar \<noteq> [] \<longleftrightarrow> navigation p"
    using render_navbar_elems [OF r(3)] by blast+
  have bar_no: "\<And>e. e \<in> set bar \<Longrightarrow> \<not> is_overlay_control e"
    using bar(1) by (metis is_filmstrip.elims(2) is_overlay_control.simps(6))
  have bs_no: "\<And>e. e \<in> set bs \<Longrightarrow> \<not> is_filmstrip e"
    using bs by (metis is_overlay_control.elims(2) is_filmstrip.simps)
  have "(\<exists>e\<in>set els. is_overlay_control e) \<longleftrightarrow> loaded st"
  proof
    assume "\<exists>e\<in>set els. is_overlay_control e"
    then obtain e where e: "e \<in> set els" "is_overlay_control e" by blast
    with r(4) bar_no have "e \<in> set bs" by auto
    then show "loaded st" using bs by blast
  next
    assume "loaded st"
    from render_buttons_close [OF r(2) this] show "\<exists>e\<in>set els. is_overlay_control e"
      unfolding r(4) by (intro bexI [of _ "CloseButton CloseModal"]) simp_all
  qed
  moreover have "(\<exists>e\<in>set els. is_filmstrip e) \<longleftrightarrow> navigation p"
  proof
    assume "\<exists>e\<in>set els. is_filmstrip e"
    then obtain e where e: "e \<in> set els" "is_filmstrip e" by blast
    with r(4) bs_no have "e \<in> set bar" by auto
    then have "bar \<noteq> []" by auto
    then show "navigation p" using bar(2) by simp
  next
    assume "navigation p"
    then have "bar \<noteq> []" using bar(2) by simp
    then obtain e where "e \<in> set bar" by (cases bar) auto
    then show "\<exists>e\<in>set els. is_filmstrip e" unfolding r(4) using bar(1) by auto
  qed
  ultimately show ?thesis by simp
qed

theorem render_gates_witness:
  "render (viewer 1 (gallery 3)) (initial_state\<lparr>loaded := True\<rparr>) =
     Inr [MainImage (photo 1 1) (dimensions initial_state),
          PrevButton (ChangePhotoId 0), NextButton (ChangePhotoId 2),
          OpenOriginalLink (photo 1 1), CloseButton CloseModal,
          BottomNavBar [(0, ChangePhotoId 0), (1, ChangePhotoId 1), (2, ChangePhotoId 2)]]
   \<and> loaded (initial_state\<lparr>loaded := True\<rparr>)
   \<and> navigation (viewer 1 (gallery 3))"
proof -
  have r: "render (viewer 1 (gallery 3)) (initial_state\<lparr>loaded := True\<rparr>) =
     Inr [MainImage (photo 1 1) (dimensions initial_state),
          PrevButton (ChangePhotoId 0), NextButton (ChangePhotoId 2),
          OpenOriginalLink (photo 1 1), CloseButton CloseModal,
          BottomNavBar [(0, ChangePhotoId 0), (1, ChangePhotoId 1), (2, ChangePhotoId 2)]]"
    by (simp add: render_def render_buttons_def render_navbar_def currentImage_def
        filteredImages_def range_list_def viewer_def gallery_3 photo_def initial_state_def)
  from render_gates [OF r] show ?thesis using r by simp
qed

section \<open>The loaded flag over the life of one instance\<close>

lemma rendered_Inr: "rendered c = Inr c' \<Longrightarrow> c' = c"
  by (simp add: rendered_def split: sum.splits)

lemma loaded_run_effect: "loaded (c_state (run_effect c)) = loaded (c_state c)"
  by (simp add: run_effect_def calculateDimensions_def Let_def split: option.splits prod.splits)

lemma mount_not_loaded: "mount p win = Inr c \<Longrightarrow> \<not> loaded (c_state c)"
  by (auto simp: mount_def initial_state_def loaded_run_effect
      dest!: rendered_Inr split: sum.splits)

lemma step_loaded:
  "step e c = Inr c' \<Longrightarrow> loaded (c_state c') = (e = ImageLoad \<or> loaded (c_state c))"
  by (cases e) (auto simp: loaded_run_effect dest!: rendered_Inr split: sum.splits)

lemma run_loaded:
  "run es c = Inr c' \<Longrightarrow> loaded (c_state c') = (ImageLoad \<in> set es \<or> loaded (c_state c))"
proof (induction es arbitrary: c)
  case Nil
  then show ?case by simp
next
  case (Cons e es)
  from Cons.prems obtain c1 where c1: "step e c = Inr c1" "run es c1 = Inr c'"
    by (auto split: sum.splits)
  from Cons.IH [OF c1(2)] step_loaded [OF c1(1)] show ?case by auto
qed

lemma mount_example: "mount (viewer 0 (gallery 3)) desktop = Inr mounted_viewer"
  by (simp add: mount_def rendered_def run_effect_def calculateDimensions_photo mounted_viewer_def
      desktop_def render_def render_buttons_def render_navbar_def currentImage_def
      initial_state_def filteredImages_def range_list_def viewer_def gallery_3 photo_def Let_def)

lemma run_example:
  "run [ImageLoad, NewProps (viewer 1 (gallery 3))] mounted_viewer = Inr navigated_viewer"
  by (simp add: rendered_def run_effect_def calculateDimensions_photo mounted_viewer_def
      navigated_viewer_def desktop_def render_def render_buttons_def render_navbar_def
      currentImage_def filteredImages_def range_list_def viewer_def gallery_3 photo_def Let_def)

lemma step_example:
  "step (NewProps (viewer 1 (gallery 3))) mounted_viewer =
     Inr (mounted_viewer\<lparr>c_props := viewer 1 (gallery 3)\<rparr>)"
  by (simp add: rendered_def run_effect_def calculateDimensions_photo mounted_viewer_def
      desktop_def render_def render_buttons_def render_navbar_def
      currentImage_def filteredImages_def range_list_def viewer_def gallery_3 photo_def Let_def)

text \<open>
  C5, as stated: \<open>loaded\<close> is said to be false again after every navigation, until the new
  image has loaded. After the first image has loaded and the viewer has moved from photo 0
  to photo 1, \<open>loaded\<close> is still true, though no \<open>onLoad\<close> of photo 1 has happened.
\<close>

theorem loaded_survives_navigation:
  "mount (viewer 0 (gallery 3)) desktop = Inr mounted_viewer
   \<and> run [ImageLoad, NewProps (viewer 1 (gallery 3))] mounted_viewer = Inr navigated_viewer
   \<and> index (c_props navigated_viewer) = 1
   \<and> loaded (c_state navigated_viewer)"
proof -
  have "index (c_props navigated_viewer) = 1" and "loaded (c_state navigated_viewer)"
    by (simp_all add: navigated_viewer_def viewer_def)
  then show ?thesis by (intro conjI mount_example run_example)
qed

text \<open>
  C5, amended: \<open>loaded\<close> is false when the instance is mounted; a render with new props
  (a navigation) leaves it as it is; over any sequence of events it is true afterwards
  exactly when it was true before or an \<open>onLoad\<close> is among the events. Nothing sets it
  back to false.
\<close>

theorem loaded_never_reset:
  "(mount p win = Inr c0 \<longrightarrow> \<not> loaded (c_state c0))
   \<and> (step (NewProps p') c = Inr c' \<longrightarrow> loaded (c_state c') = loaded (c_state c))
   \<and> (run es c = Inr c'' \<longrightarrow> loaded (c_state c'') = (ImageLoad \<in> set es \<or> loaded (c_state c)))"
  using mount_not_loaded [of p win c0] step_loaded [of "NewProps p'" c c'] run_loaded [of es c c'']
  by simp

theorem loaded_never_reset_witness:
  "mount (viewer 0 (gallery 3)) desktop = Inr mounted_viewer
   \<and> \<not> loaded (c_state mounted_viewer)
   \<and> step (NewProps (viewer 1 (gallery 3))) mounted_viewer =
       Inr (mounted_viewer\<lparr>c_props := viewer 1 (gallery 3)\<rparr>)
   \<and> \<not> loaded (c_state (mounted_viewer\<lparr>c_props := viewer 1 (gallery 3)\<rparr>))
   \<and> run [ImageLoad, NewProps (viewer 1 (gallery 3))] mounted_viewer = Inr navigated_viewer
   \<and> loaded (c_state navigated_viewer)"
proof -
  note inst = loaded_never_reset [of "viewer 0 (gallery 3)" desktop mounted_viewer
      "viewer 1 (gallery 3)" mounted_viewer "mounted_viewer\<lparr>c_props := viewer 1 (gallery 3)\<rparr>"
      "[ImageLoad, NewProps (viewer 1 (gallery 3))]" navigated_viewer]
  from inst mount_example have a: "\<not> loaded (c_state mounted_viewer)" by blast
  from inst step_example have
    "loaded (c_state (mounted_viewer\<lparr>c_props := viewer 1 (gallery 3)\<rparr>)) =
     loaded (c_state mounted_viewer)" by blast
  with a have b: "\<not> loaded (c_state (mounted_viewer\<lparr>c_props := viewer 1 (gallery 3)\<rparr>))"
    by blast
  from inst run_example have
    "loaded (c_state navigated_viewer) =
       (ImageLoad \<in> set [ImageLoad, NewProps (viewer 1 (gallery 3))]
        \<or> loaded (c_state mounted_viewer))" by blast
  then have c: "loaded (c_state navigated_viewer)" by simp
  show ?thesis by (intro conjI mount_example step_example run_example a b c)
qed

section \<open>The collection built at page load\<close>

lemma random_index_le: "nat \<lfloor>Rep_unit_real r * real (i + 1)\<rfloor> \<le> i"
proof -
  have r: "0 \<le> Rep_unit_real r" "Rep_unit_real r < 1" using Rep_unit_real [of r] by auto
  have "Rep_unit_real r * real (i + 1) < real (i + 1)" using r by simp
  then have "\<lfloor>Rep_unit_real r * real (i + 1)\<rfloor> < int (i + 1)" by (simp add: floor_less_iff)
  then show ?thesis by linarith
qed

lemma shuffle_loop_mset: "i < length xs \<Longrightarrow> mset (shuffle_loop random k i xs) = mset xs"
proof (induction i arbitrary: k xs)
  case 0
  then show ?case by simp
next
  case (Suc i)
  let ?j = "nat \<lfloor>Rep_unit_real (random k) * real (Suc i + 1)\<rfloor>"
  have j: "?j \<le> Suc i" by (rule random_index_le)
  have "mset (xs[Suc i := xs ! ?j, ?j := xs ! Suc i]) = mset xs"
    using Suc.prems j by (simp add: mset_swap)
  moreover have "i < length (xs[Suc i := xs ! ?j, ?j := xs ! Suc i])" using Suc.prems by simp
  ultimately show ?case using Suc.IH by (simp add: Let_def)
qed

lemma shuffleArray_mset: "mset (shuffleArray random xs) = mset xs"
  by (cases xs) (simp_all add: shuffleArray_def shuffle_loop_mset)

lemma length_reducedResults: "length (reducedResults rs) = length rs"
  by (simp add: reducedResults_def)

lemma reducedResults_nth:
  "k < length rs \<Longrightarrow> img_id (reducedResults rs ! k) = int k \<and> navigationId (reducedResults rs ! k) = int k"
  by (simp add: reducedResults_def)

lemma originalOrder: "map snd (zip xs [0..<length xs]) = [0..<length xs]"
  by (simp add: map_snd_zip)

lemma randomizedResults_perm:
  assumes "randomizedResults random (reducedResults rs) = Inr imgs"
  shows "\<exists>order. mset order = mset [0..<length rs]
           \<and> map img_id imgs = map int order \<and> map navigationId imgs = map int order"
proof -
  let ?order = "shuffleArray random [0..<length rs]"
  have m: "mset ?order = mset [0..<length rs]" by (rule shuffleArray_mset)
  then have "set ?order = {0..<length rs}" by (metis mset_eq_setD set_upt)
  then have inr: "\<forall>k\<in>set ?order. k < length rs" by simp
  from assms have imgs: "imgs = map (\<lambda>newIndex.
                (reducedResults rs ! newIndex)\<lparr>img_id := img_id (reducedResults rs ! newIndex),
                                      navigationId := int newIndex\<rparr>) ?order"
    by (simp add: randomizedResults_def originalOrder length_reducedResults Let_def split: if_splits)
  have "map img_id imgs = map int ?order" unfolding imgs using inr
    by (simp add: reducedResults_nth)
  moreover have "map navigationId imgs = map int ?order" unfolding imgs by (simp add: comp_def)
  ultimately show ?thesis using m by blast
qed

lemma map2_blur_ids:
  "length bs = length xs \<Longrightarrow>
   map img_id (map2 (\<lambda>image b. image\<lparr>blurDataUrl := b\<rparr>) xs bs) = map img_id xs
   \<and> map navigationId (map2 (\<lambda>image b. image\<lparr>blurDataUrl := b\<rparr>) xs bs) = map navigationId xs"
  by (induction xs bs rule: list_induct2') simp_all

lemma getStaticProps_perm:
  "\<exists>order. mset order = mset [0..<length order]
      \<and> map img_id (getStaticProps random blur results) = map int order
      \<and> map navigationId (getStaticProps random blur results) = map int order"
proof (cases results)
  case None
  then have "getStaticProps random blur results = []" by (simp add: getStaticProps_def)
  then show ?thesis by (intro exI [of _ "[]"]) simp
next
  case (Some rs)
  show ?thesis
  proof (cases "randomizedResults random (reducedResults rs)")
    case (Inl e)
    with Some have "getStaticProps random blur results = []" by (simp add: getStaticProps_def)
    then show ?thesis by (intro exI [of _ "[]"]) simp
  next
    case (Inr imgs)
    from randomizedResults_perm [OF Inr] obtain order where
      o: "mset order = mset [0..<length rs]" "map img_id imgs = map int order"
         "map navigationId imgs = map int order" by blast
    have len: "length order = length rs" using o(1) by (metis mset_eq_length length_upt diff_zero)
    show ?thesis
    proof (cases "list_all (\<lambda>b. b \<noteq> None) (map blur imgs)")
      case True
      with Some Inr have "getStaticProps random blur results =
          map2 (\<lambda>image b. image\<lparr>blurDataUrl := b\<rparr>) imgs (map blur imgs)"
        by (simp add: getStaticProps_def Let_def)
      with map2_blur_ids [of "map blur imgs" imgs] o len show ?thesis
        by (intro exI [of _ order]) simp
    next
      case False
      with Some Inr have "getStaticProps random blur results = []"
        by (simp add: getStaticProps_def Let_def)
      then show ?thesis by (intro exI [of _ "[]"]) simp
    qed
  qed
qed

lemma perm_ints:
  assumes "mset order = mset [0..<length order]"
  shows "distinct (map int order) \<and> set (map int order) = {0..<int (length order)}"
proof -
  have "distinct order" using assms by (metis distinct_upt mset_eq_imp_distinct_iff)
  moreover have "set order = {0..<length order}" using assms by (metis mset_eq_setD set_upt)
  ultimately show ?thesis by (simp add: distinct_map image_int_atLeastLessThan)
qed

lemma getStaticProps_dense:
  "distinct (map img_id (getStaticProps random blur results))
   \<and> set (map img_id (getStaticProps random blur results)) =
       {0..<int (length (getStaticProps random blur results))}
   \<and> map navigationId (getStaticProps random blur results) =
       map img_id (getStaticProps random blur results)"
proof -
  from getStaticProps_perm [of random blur results] obtain order where
    o: "mset order = mset [0..<length order]"
       "map img_id (getStaticProps random blur results) = map int order"
       "map navigationId (getStaticProps random blur results) = map int order" by blast
  have "length (getStaticProps random blur results) = length order"
    using o(2) by (metis length_map)
  with perm_ints [OF o(1)] o(2,3) show ?thesis by simp
qed

text \<open>
  C2, as stated: in a collection handed to the viewer, \<open>images[i].id\<close> is said to be \<open>i\<close>
  for every index. With three search hits and every draw of the generator equal to 0,
  the builder returns three records of which the first has id 1.
\<close>

theorem getStaticProps_id_not_position:
  "length built_gallery = 3 \<and> img_id (built_gallery ! 0) = 1"
  by (simp add: built_gallery_def getStaticProps_def randomizedResults_def reducedResults_def
      shuffleArray_def search_hit_def Abs_unit_real_inverse upt_conv_Cons numeral_3_eq_3)

text \<open>
  C2, amended: in every collection the builder returns, of length \<open>N\<close>, the ids are the
  integers \<open>0..N-1\<close>, each once, in the shuffled order and not by array position; the
  navigationIds are the integers \<open>0..N-1\<close>, each once, as well.
\<close>

theorem getStaticProps_ids_permutation:
  "distinct (map img_id (getStaticProps random blur results))
   \<and> set (map img_id (getStaticProps random blur results)) =
       {0..<int (length (getStaticProps random blur results))}
   \<and> distinct (map navigationId (getStaticProps random blur results))
   \<and> set (map navigationId (getStaticProps random blur results)) =
       {0..<int (length (getStaticProps random blur results))}"
proof -
  from getStaticProps_perm [of random blur results] obtain order where
    o: "mset order = mset [0..<length order]"
       "map img_id (getStaticProps random blur results) = map int order"
       "map navigationId (getStaticProps random blur results) = map int order" by blast
  have "length (getStaticProps random blur results) = length order"
    using o(2) by (metis length_map)
  with perm_ints [OF o(1)] o(2,3) show ?thesis by simp
qed

section \<open>Swipes and buttons on a built collection\<close>

lemma swipe_left_by_id:
  assumes imgs: "images p = Some imgs"
      and d: "distinct (map img_id imgs)"
      and s: "set (map img_id imgs) = {0..<int (length imgs)}"
      and eq: "map navigationId imgs = map img_id imgs"
  shows "onSwipedLeft p =
           (if 0 \<le> index p \<and> index p + 1 < int (length imgs)
            then [ChangePhotoId (index p + 1)] else [])"
proof (cases "index p \<in> set (map img_id imgs)")
  case False
  then have "swipe_currentImage p = None"
    using imgs by (simp add: swipe_currentImage_def find_key_notin)
  moreover have "\<not> (0 \<le> index p \<and> index p + 1 < int (length imgs))" using False s by auto
  ultimately show ?thesis by (simp add: onSwipedLeft_def nextImage_def)
next
  case True
  from find_key_in [OF d True] obtain cur where
    cur: "cur \<in> set imgs" "img_id cur = index p" "find (\<lambda>y. img_id y = index p) imgs = Some cur"
    by blast
  have pt: "\<And>x. x \<in> set imgs \<Longrightarrow> navigationId x = img_id x" using eq by (simp add: map_eq_conv)
  have c: "swipe_currentImage p = Some cur" using imgs cur(3) by (simp add: swipe_currentImage_def)
  have nav: "navigationId cur = index p" using pt [OF cur(1)] cur(2) by simp
  have nx: "nextImage p = find (\<lambda>y. navigationId y = index p + 1) imgs"
    using imgs c nav by (simp add: nextImage_def)
  have r: "0 \<le> index p" "index p < int (length imgs)" using True s by auto
  show ?thesis
  proof (cases "index p + 1 < int (length imgs)")
    case True
    then have "index p + 1 \<in> set (map navigationId imgs)" using r s eq by simp
    from find_key_in [OF _ this] d eq obtain B where
      B: "B \<in> set imgs" "navigationId B = index p + 1"
         "find (\<lambda>y. navigationId y = index p + 1) imgs = Some B" by auto
    have "img_id B = index p + 1" using pt [OF B(1)] B(2) by simp
    then show ?thesis using True r nx B(3) by (simp add: onSwipedLeft_def)
  next
    case False
    then have "index p + 1 \<notin> set (map navigationId imgs)" using s eq by simp
    from find_key_notin [OF this] have "nextImage p = None" using nx by simp
    then show ?thesis using False by (simp add: onSwipedLeft_def)
  qed
qed

lemma swipe_right_by_id:
  assumes imgs: "images p = Some imgs"
      and d: "distinct (map img_id imgs)"
      and s: "set (map img_id imgs) = {0..<int (length imgs)}"
      and eq: "map navigationId imgs = map img_id imgs"
  shows "onSwipedRight p =
           (if 0 < index p \<and> index p < int (length imgs)
            then [ChangePhotoId (index p - 1)] else [])"
proof (cases "index p \<in> set (map img_id imgs)")
  case False
  then have "swipe_currentImage p = None"
    using imgs by (simp add: swipe_currentImage_def find_key_notin)
  moreover have "\<not> (0 < index p \<and> index p < int (length imgs))" using False s by auto
  ultimately show ?thesis by (simp add: onSwipedRight_def prevImage_def)
next
  case True
  from find_key_in [OF d True] obtain cur where
    cur: "cur \<in> set imgs" "img_id cur = index p" "find (\<lambda>y. img_id y = index p) imgs = Some cur"
    by blast
  have pt: "\<And>x. x \<in> set imgs \<Longrightarrow> navigationId x = img_id x" using eq by (simp add: map_eq_conv)
  have c: "swipe_currentImage p = Some cur" using imgs cur(3) by (simp add: swipe_currentImage_def)
  have nav: "navigationId cur = index p" using pt [OF cur(1)] cur(2) by simp
  have pv: "prevImage p = find (\<lambda>y. navigationId y = index p - 1) imgs"
    using imgs c nav by (simp add: prevImage_def)
  have r: "0 \<le> index p" "index p < int (length imgs)" using True s by auto
  show ?thesis
  proof (cases "0 < index p")
    case True
    then have "index p - 1 \<in> set (map navigationId imgs)" using r s eq by simp
    from find_key_in [OF _ this] d eq obtain B where
      B: "B \<in> set imgs" "navigationId B = index p - 1"
         "find (\<lambda>y. navigationId y = index p - 1) imgs = Some B" by auto
    have "img_id B = index p - 1" using pt [OF B(1)] B(2) by simp
    then show ?thesis using True r pv B(3) by (simp add: onSwipedRight_def)
  next
    case False
    then have "index p - 1 \<notin> set (map navigationId imgs)" using s eq by simp
    from find_key_notin [OF this] have "prevImage p = None" using pv by simp
    then show ?thesis using False by (simp add: onSwipedRight_def)
  qed
qed

lemma render_nav_buttons:
  assumes "render p st = Inr els" and "images p = Some imgs"
  shows "(NextButton cb \<in> set els \<longleftrightarrow>
            loaded st \<and> navigation p \<and> index p + 1 < int (length imgs)
            \<and> cb = ChangePhotoId (index p + 1))
       \<and> (PrevButton cb \<in> set els \<longleftrightarrow>
            loaded st \<and> navigation p \<and> 0 < index p \<and> cb = ChangePhotoId (index p - 1))
       \<and> index p \<in> set (map img_id imgs)"
proof -
  from render_Inr [OF assms(1)] obtain cur bs bar where
    r: "currentImage p = Some cur" "render_buttons p st cur = Inr bs"
       "render_navbar p = Inr bar" "els = MainImage cur (dimensions st) # bs @ bar" by blast
  have bar: "NextButton cb \<notin> set bar" "PrevButton cb \<notin> set bar"
    using render_navbar_elems [OF r(3)] by auto
  have "find (\<lambda>img. img_id img = index p) imgs = Some cur"
    using r(1) assms(2) by (simp add: currentImage_def)
  then have "index p \<in> set (map img_id imgs)"
    by (cases "index p \<in> set (map img_id imgs)") (simp_all add: find_key_notin)
  moreover have "NextButton cb \<in> set bs \<longleftrightarrow>
            loaded st \<and> navigation p \<and> index p + 1 < int (length imgs)
            \<and> cb = ChangePhotoId (index p + 1)"
    using r(2) assms(2) by (auto simp: render_buttons_def split: if_splits)
  moreover have "PrevButton cb \<in> set bs \<longleftrightarrow>
            loaded st \<and> navigation p \<and> 0 < index p \<and> cb = ChangePhotoId (index p - 1)"
    using r(2) assms(2) by (auto simp: render_buttons_def split: if_splits)
  ultimately show ?thesis using bar unfolding r(4) by simp
qed

lemma built_gallery_ids:
  "map img_id built_gallery = [1, 2, 0] \<and> map navigationId built_gallery = [1, 2, 0]"
  by (simp add: built_gallery_def getStaticProps_def randomizedResults_def reducedResults_def
      shuffleArray_def search_hit_def Abs_unit_real_inverse upt_conv_Cons numeral_3_eq_3)

text \<open>
  C10. In every collection the builder returns, each record's navigationId is its id.
  So for a viewer on such a collection a swipe left calls \<open>changePhotoId(index + 1)\<close>
  exactly when \<open>index\<close> and \<open>index + 1\<close> are ids, a swipe right calls
  \<open>changePhotoId(index - 1)\<close> exactly when \<open>index - 1\<close> and \<open>index\<close> are ids, and in a
  render that succeeds the next (prev) button is there with a callback exactly when the
  buttons are shown and the swipe left (right) makes that same call.
\<close>

theorem getStaticProps_navigation_agrees:
  assumes "images p = Some (getStaticProps random blur results)"
  shows "(\<forall>img\<in>set (getStaticProps random blur results). navigationId img = img_id img)
       \<and> onSwipedLeft p =
           (if 0 \<le> index p \<and> index p + 1 < int (length (getStaticProps random blur results))
            then [ChangePhotoId (index p + 1)] else [])
       \<and> onSwipedRight p =
           (if 0 < index p \<and> index p < int (length (getStaticProps random blur results))
            then [ChangePhotoId (index p - 1)] else [])
       \<and> (render p st = Inr els \<longrightarrow>
            (NextButton cb \<in> set els \<longleftrightarrow> loaded st \<and> navigation p \<and> onSwipedLeft p = [cb])
          \<and> (PrevButton cb \<in> set els \<longleftrightarrow> loaded st \<and> navigation p \<and> onSwipedRight p = [cb]))"
proof -
  let ?imgs = "getStaticProps random blur results"
  have d: "distinct (map img_id ?imgs)"
    and s: "set (map img_id ?imgs) = {0..<int (length ?imgs)}"
    and eq: "map navigationId ?imgs = map img_id ?imgs"
    using getStaticProps_dense [of random blur results] by blast+
  have pt: "\<forall>img\<in>set ?imgs. navigationId img = img_id img" using eq by (simp add: map_eq_conv)
  have L: "onSwipedLeft p =
           (if 0 \<le> index p \<and> index p + 1 < int (length ?imgs)
            then [ChangePhotoId (index p + 1)] else [])"
    using assms d s eq by (rule swipe_left_by_id)
  have R: "onSwipedRight p =
           (if 0 < index p \<and> index p < int (length ?imgs)
            then [ChangePhotoId (index p - 1)] else [])"
    using assms d s eq by (rule swipe_right_by_id)
  have "render p st = Inr els \<longrightarrow>
            (NextButton cb \<in> set els \<longleftrightarrow> loaded st \<and> navigation p \<and> onSwipedLeft p = [cb])
          \<and> (PrevButton cb \<in> set els \<longleftrightarrow> loaded st \<and> navigation p \<and> onSwipedRight p = [cb])"
  proof
    assume r: "render p st = Inr els"
    from render_nav_buttons [OF r assms, of cb] have
      n: "NextButton cb \<in> set els \<longleftrightarrow>
            loaded st \<and> navigation p \<and> index p + 1 < int (length ?imgs)
            \<and> cb = ChangePhotoId (index p + 1)"
      and v: "PrevButton cb \<in> set els \<longleftrightarrow>
            loaded st \<and> navigation p \<and> 0 < index p \<and> cb = ChangePhotoId (index p - 1)"
      and i: "index p \<in> set (map img_id ?imgs)" by blast+
    have rg: "0 \<le> index p" "index p < int (length ?imgs)" using i s by auto
    show "(NextButton cb \<in> set els \<longleftrightarrow> loaded st \<and> navigation p \<and> onSwipedLeft p = [cb])
          \<and> (PrevButton cb \<in> set els \<longleftrightarrow> loaded st \<and> navigation p \<and> onSwipedRight p = [cb])"
      unfolding n v L R using rg by auto
  qed
  with pt L R show ?thesis by blast
qed


theorem getStaticProps_navigation_agrees_witness:
  "onSwipedLeft (viewer 1 built_gallery) = [ChangePhotoId 2]
   \<and> onSwipedRight (viewer 1 built_gallery) = [ChangePhotoId 0]
   \<and> onSwipedLeft (viewer 2 built_gallery) = []"
proof -
  have len: "length built_gallery = 3"
    using built_gallery_ids by (metis length_map length_Cons list.size(3) numeral_3_eq_3 One_nat_def)
  have i: "images (viewer 1 built_gallery) =
      Some (getStaticProps (\<lambda>_. Abs_unit_real 0) (\<lambda>_. Some ''blur'')
       (Some [search_hit ''a'', search_hit ''b'', search_hit ''c'']))"
    by (simp add: viewer_def built_gallery_def)
  have i2: "images (viewer 2 built_gallery) =
      Some (getStaticProps (\<lambda>_. Abs_unit_real 0) (\<lambda>_. Some ''blur'')
       (Some [search_hit ''a'', search_hit ''b'', search_hit ''c'']))"
    by (simp add: viewer_def built_gallery_def)
  show ?thesis
    using getStaticProps_navigation_agrees [OF i] getStaticProps_navigation_agrees [OF i2] len
    by (simp add: index_viewer built_gallery_def [symmetric])
qed


end
